theory Spec2Isabelle
  imports Complex_Main "HOL-Library.Word" "HOL-Library.AList" "HOL-Library.Sublist"
begin

section \<open>The filesystem the gateway talks to\<close>

text \<open>
  \<^verbatim>\<open>file_system.py\<close> holds one class, \<^verbatim>\<open>FileSystem\<close>, whose nine static methods
  delegate to \<^verbatim>\<open>os\<close>, \<^verbatim>\<open>os.path\<close>, \<^verbatim>\<open>shutil\<close> and \<^verbatim>\<open>datetime\<close>. The methods are
  embedded below one by one, each as a function that takes the filesystem and returns its
  result together with the filesystem it leaves behind. The library calls they make are
  modelled over a tree:

  \<^item> a path is the list of its components (what remains of the path string once it is
    split at the separator and normalised); the empty list names the root of the tree,
    which stands for the directory all paths are resolved against;
  \<^item> an object is a regular file (its bytes and the \<^verbatim>\<open>st_mtime\<close> that \<^verbatim>\<open>os.stat\<close>
    reports, a float, kept as the rational it denotes), a directory (its entries, in the
    order the OS enumerates them) or a special object (a FIFO, a socket, a device:
    it exists, and is neither a regular file nor a directory);
  \<^item> symbolic links, permissions and concurrent changes by other processes are outside
    the model.
\<close>

type_synonym name = string
type_synonym path = "name list"
type_synonym byte = "8 word"

datatype node =
    File "byte list" rat
  | Dir "(name \<times> node) list"
  | Special

type_synonym fs = "(name \<times> node) list"

text \<open>Python's exception classes, as far as the methods meet them.\<close>

datatype exn =
    FileNotFoundError
  | FileExistsError
  | NotADirectoryError
  | OSError
  | ValueError
  | UnicodeDecodeError

text \<open>\<^verbatim>\<open>except OSError\<close> catches \<^verbatim>\<open>OSError\<close> and its subclasses.\<close>

fun isinstance_OSError :: "exn \<Rightarrow> bool" where
  "isinstance_OSError FileNotFoundError = True"
| "isinstance_OSError FileExistsError = True"
| "isinstance_OSError NotADirectoryError = True"
| "isinstance_OSError OSError = True"
| "isinstance_OSError ValueError = False"
| "isinstance_OSError UnicodeDecodeError = False"

type_synonym 'a io = "fs \<Rightarrow> 'a \<times> fs"

subsection \<open>Path resolution\<close>

text \<open>
  Resolution walks down from the root. A component below a regular file or a special
  object resolves to nothing (the OS answers \<^verbatim>\<open>ENOTDIR\<close>).
\<close>

fun lookup :: "fs \<Rightarrow> path \<Rightarrow> node option" where
  "lookup es [] = Some (Dir es)"
| "lookup es (n # ns) =
     (case map_of es n of
        None \<Rightarrow> None
      | Some (Dir es') \<Rightarrow> lookup es' ns
      | Some x \<Rightarrow> (if ns = [] then Some x else None))"

text \<open>
  What a path names, seen from outside: a regular file with its bytes and modification
  time, a directory, or another kind of object.
\<close>

datatype obj = Regular "byte list" rat | Directory | Other

fun view :: "node \<Rightarrow> obj" where
  "view (File c m) = Regular c m"
| "view (Dir es) = Directory"
| "view Special = Other"

definition obj_at :: "fs \<Rightarrow> path \<Rightarrow> obj option" where
  "obj_at s p = map_option view (lookup s p)"

definition exists_at :: "fs \<Rightarrow> path \<Rightarrow> bool" where
  "exists_at s p = (obj_at s p \<noteq> None)"

definition dir_at :: "fs \<Rightarrow> path \<Rightarrow> bool" where
  "dir_at s p = (obj_at s p = Some Directory)"

definition file_at :: "fs \<Rightarrow> path \<Rightarrow> bool" where
  "file_at s p = (case obj_at s p of Some (Regular c m) \<Rightarrow> True | _ \<Rightarrow> False)"

text \<open>
  A path is blocked when one of its proper ancestors is a regular file or a special
  object: nothing can exist or be created there.
\<close>

fun blocked :: "fs \<Rightarrow> path \<Rightarrow> bool" where
  "blocked es [] = False"
| "blocked es (n # ns) =
     (case map_of es n of
        None \<Rightarrow> False
      | Some (Dir es') \<Rightarrow> blocked es' ns
      | Some x \<Rightarrow> ns \<noteq> [])"

subsection \<open>The read-only library calls\<close>

text \<open>
  \<^verbatim>\<open>os.stat\<close> raises for a path that names nothing. The model keeps a size and a
  modification time for regular files only; for a directory or a special object both
  fields are given the value 0. The gateway never reads them there: it asks for the
  size and the time behind its \<^verbatim>\<open>is_file\<close> check.
\<close>

datatype file_type = S_IFREG | S_IFDIR | S_IFOTHER

record stat_result =
  st_mode :: file_type
  st_size :: nat
  st_mtime :: rat

fun stat_of :: "node \<Rightarrow> stat_result" where
  "stat_of (File c m) = \<lparr>st_mode = S_IFREG, st_size = length c, st_mtime = m\<rparr>"
| "stat_of (Dir es) = \<lparr>st_mode = S_IFDIR, st_size = 0, st_mtime = 0\<rparr>"
| "stat_of Special = \<lparr>st_mode = S_IFOTHER, st_size = 0, st_mtime = 0\<rparr>"

definition os_stat :: "path \<Rightarrow> (exn + stat_result) io" where
  "os_stat p s =
     (case lookup s p of
        None \<Rightarrow> (Inl (if blocked s p then NotADirectoryError else FileNotFoundError), s)
      | Some x \<Rightarrow> (Inr (stat_of x), s))"

text \<open>
  \<^verbatim>\<open>os.path.isfile\<close>, \<^verbatim>\<open>os.path.isdir\<close> and \<^verbatim>\<open>os.path.exists\<close> call \<^verbatim>\<open>os.stat\<close>
  and answer \<^verbatim>\<open>False\<close> when it raises \<^verbatim>\<open>OSError\<close> or \<^verbatim>\<open>ValueError\<close>.
\<close>

definition os_path_isfile :: "path \<Rightarrow> bool io" where
  "os_path_isfile p s =
     (case os_stat p s of
        (Inl e, s1) \<Rightarrow> (False, s1)
      | (Inr st, s1) \<Rightarrow> (st_mode st = S_IFREG, s1))"

definition os_path_isdir :: "path \<Rightarrow> bool io" where
  "os_path_isdir p s =
     (case os_stat p s of
        (Inl e, s1) \<Rightarrow> (False, s1)
      | (Inr st, s1) \<Rightarrow> (st_mode st = S_IFDIR, s1))"

definition os_path_exists :: "path \<Rightarrow> bool io" where
  "os_path_exists p s =
     (case os_stat p s of
        (Inl e, s1) \<Rightarrow> (False, s1)
      | (Inr st, s1) \<Rightarrow> (True, s1))"

definition os_path_getsize :: "path \<Rightarrow> (exn + nat) io" where
  "os_path_getsize p s =
     (case os_stat p s of
        (Inl e, s1) \<Rightarrow> (Inl e, s1)
      | (Inr st, s1) \<Rightarrow> (Inr (st_size st), s1))"

section \<open>The gateway: predicates and size\<close>

definition is_file :: "path \<Rightarrow> bool io" where
  "is_file file_path s =
     (let (is_file_found, s1) = os_path_isfile file_path s in (is_file_found, s1))"

definition is_directory :: "path \<Rightarrow> bool io" where
  "is_directory directory_path s =
     (let (is_directory_found, s1) = os_path_isdir directory_path s
      in (is_directory_found, s1))"

definition is_object :: "path \<Rightarrow> bool io" where
  "is_object p s = (let (is_present, s1) = os_path_exists p s in (is_present, s1))"

definition get_file_size :: "path \<Rightarrow> (exn + nat) io" where
  "get_file_size file_path s =
     (let (is_file_found, s1) = is_file file_path s in
      if \<not> is_file_found then (Inl FileNotFoundError, s1)
      else os_path_getsize file_path s1)"

definition os_path_join :: "path \<Rightarrow> path \<Rightarrow> path" where
  "os_path_join a b = a @ b"

text \<open>
  \<^verbatim>\<open>os.path.relpath(path, start)\<close>: both arguments are split into components, the
  common prefix is dropped, and each component left of \<^verbatim>\<open>start\<close> becomes \<^verbatim>\<open>..\<close>;
  an empty result is \<^verbatim>\<open>.\<close>.
\<close>

definition os_path_relpath :: "path \<Rightarrow> path \<Rightarrow> path" where
  "os_path_relpath p start =
     (let i = length (longest_common_prefix start p);
          rel_list = replicate (length start - i) ''..'' @ drop i p
      in if rel_list = [] then [''.''] else rel_list)"

text \<open>
  \<^verbatim>\<open>os.listdir\<close> gives the names of the entries of a directory.
\<close>

definition os_listdir :: "path \<Rightarrow> (exn + name list) io" where
  "os_listdir p s =
     (case lookup s p of
        None \<Rightarrow> (Inl FileNotFoundError, s)
      | Some (Dir es) \<Rightarrow> (Inr (map fst es), s)
      | Some _ \<Rightarrow> (Inl NotADirectoryError, s))"

text \<open>
  \<^verbatim>\<open>os.walk(top)\<close>, top-down and without following links: for \<^verbatim>\<open>top\<close> and then for
  every directory below it, one triple of the directory's path, the names of its entries
  that are directories, and the names of its entries that are not. On a path that is
  not a directory it yields nothing (the error of the scan is ignored).
\<close>

fun is_Dir :: "node \<Rightarrow> bool" where
  "is_Dir (Dir es) = True"
| "is_Dir x = False"

fun walk :: "path \<Rightarrow> (name \<times> node) list \<Rightarrow> (path \<times> name list \<times> name list) list"
  and walk_subdirs :: "path \<Rightarrow> (name \<times> node) list \<Rightarrow> (path \<times> name list \<times> name list) list"
where
  "walk dirpath es =
     (dirpath, map fst (filter (\<lambda>e. is_Dir (snd e)) es), map fst (filter (\<lambda>e. \<not> is_Dir (snd e)) es))
       # walk_subdirs dirpath es"
| "walk_subdirs dirpath [] = []"
| "walk_subdirs dirpath ((n, Dir es') # rest) = walk (dirpath @ [n]) es' @ walk_subdirs dirpath rest"
| "walk_subdirs dirpath ((n, x) # rest) = walk_subdirs dirpath rest"

definition os_walk :: "path \<Rightarrow> (path \<times> name list \<times> name list) list io" where
  "os_walk dirpath s =
     (case lookup s dirpath of
        Some (Dir es) \<Rightarrow> (walk dirpath es, s)
      | _ \<Rightarrow> ([], s))"

subsection \<open>The library calls that change the filesystem\<close>

text \<open>
  \<^verbatim>\<open>os.mkdir\<close> makes one directory: the path must be free and its parent a directory.
\<close>

fun mkdir_at :: "fs \<Rightarrow> path \<Rightarrow> exn + fs" where
  "mkdir_at es [] = Inl FileExistsError"
| "mkdir_at es [n] =
     (case map_of es n of
        Some x \<Rightarrow> Inl FileExistsError
      | None \<Rightarrow> Inr (es @ [(n, Dir [])]))"
| "mkdir_at es (n # ns) =
     (case map_of es n of
        None \<Rightarrow> Inl FileNotFoundError
      | Some (Dir es') \<Rightarrow>
          (case mkdir_at es' ns of
             Inl e \<Rightarrow> Inl e
           | Inr es'' \<Rightarrow> Inr (AList.update n (Dir es'') es))
      | Some x \<Rightarrow> Inl NotADirectoryError)"

text \<open>
  Not every name can be given to a new directory. Python raises \<^verbatim>\<open>ValueError\<close> for a
  path with a NUL byte in it, before it asks the OS. The OS (the limits are those of
  Linux) refuses a path string of \<^verbatim>\<open>PATH_MAX\<close> bytes or more with
  \<^verbatim>\<open>ENAMETOOLONG\<close>; then it walks to the parent; and then it refuses to make an entry
  whose name is empty (\<^verbatim>\<open>ENOENT\<close>), is \<^verbatim>\<open>.\<close> or \<^verbatim>\<open>..\<close> (\<^verbatim>\<open>EEXIST\<close>), or is longer
  than \<^verbatim>\<open>NAME_MAX\<close> bytes (\<^verbatim>\<open>ENAMETOOLONG\<close>). A component cannot hold the
  separator: the model refuses such a name as well.
\<close>

definition NAME_MAX :: nat where
  "NAME_MAX = 255"

definition PATH_MAX :: nat where
  "PATH_MAX = 4096"

definition embedded_null :: "path \<Rightarrow> bool" where
  "embedded_null p = list_ex (\<lambda>n. CHR 0x00 \<in> set n) p"

text \<open>The length of the path string: the components and the separators between them.\<close>

definition path_length :: "path \<Rightarrow> nat" where
  "path_length p = sum_list (map length p) + (length p - 1)"

definition name_refused :: "name \<Rightarrow> exn option" where
  "name_refused n =
     (if n = [] then Some FileNotFoundError
      else if n = ''.'' \<or> n = ''..'' then Some FileExistsError
      else if NAME_MAX < length n \<or> CHR ''/'' \<in> set n then Some OSError
      else None)"

definition os_mkdir :: "path \<Rightarrow> (exn + unit) io" where
  "os_mkdir p s =
     (if embedded_null p then (Inl ValueError, s)
      else if PATH_MAX \<le> path_length p then (Inl OSError, s)
      else
        (case mkdir_at s p of
           Inl e \<Rightarrow> (Inl e, s)
         | Inr s' \<Rightarrow>
             (case name_refused (last p) of
                Some e \<Rightarrow> (Inl e, s)
              | None \<Rightarrow> (Inr (), s'))))"

text \<open>
  \<^verbatim>\<open>os.makedirs(name, exist_ok=False)\<close>: split \<^verbatim>\<open>name\<close> into head and tail; when
  both are non-empty and the head does not exist, make the head first (a
  \<^verbatim>\<open>FileExistsError\<close> from that call is swallowed); then \<^verbatim>\<open>mkdir(name)\<close>, whose
  error is raised again since \<^verbatim>\<open>exist_ok\<close> is false. The head is the path without
  its last component. The library function has two more branches, for a tail that is
  empty (a trailing separator) and for a tail that is \<^verbatim>\<open>.\<close>; a normalised path has
  neither, and \<^verbatim>\<open>os_mkdir\<close> refuses both names.
\<close>

function os_makedirs :: "path \<Rightarrow> (exn + unit) io" where
  "os_makedirs name s =
     (if name \<noteq> [] \<and> butlast name \<noteq> [] \<and> \<not> fst (os_path_exists (butlast name) s) then
        (case os_makedirs (butlast name) s of
           (Inl e, s1) \<Rightarrow> if e = FileExistsError then os_mkdir name s1 else (Inl e, s1)
         | (Inr u, s1) \<Rightarrow> os_mkdir name s1)
      else os_mkdir name s)"
  by pat_completeness auto
termination
  by (relation "measure (\<lambda>(name, s). length name)") auto

text \<open>
  \<^verbatim>\<open>shutil.rmtree\<close> deletes what is inside the directory and then the directory
  itself. On the root of the tree the last step fails (the OS refuses to remove \<^verbatim>\<open>.\<close>
  or \<^verbatim>\<open>/\<close>) after the contents are gone.
\<close>

fun rmtree_at :: "fs \<Rightarrow> path \<Rightarrow> (exn + unit) \<times> fs" where
  "rmtree_at es [] = (Inl OSError, [])"
| "rmtree_at es [n] =
     (case map_of es n of
        None \<Rightarrow> (Inl FileNotFoundError, es)
      | Some (Dir es') \<Rightarrow> (Inr (), AList.delete n es)
      | Some x \<Rightarrow> (Inl NotADirectoryError, es))"
| "rmtree_at es (n # ns) =
     (case map_of es n of
        None \<Rightarrow> (Inl FileNotFoundError, es)
      | Some (Dir es') \<Rightarrow>
          (case rmtree_at es' ns of (r, es'') \<Rightarrow> (r, AList.update n (Dir es'') es))
      | Some x \<Rightarrow> (Inl NotADirectoryError, es))"

definition shutil_rmtree :: "path \<Rightarrow> (exn + unit) io" where
  "shutil_rmtree p s = rmtree_at s p"

section \<open>The gateway: directories\<close>

definition create_directory :: "path \<Rightarrow> (exn + unit) io" where
  "create_directory directory_path s =
     (let (is_present, s1) = is_object directory_path s in
      if is_present then (Inl FileExistsError, s1)
      else
        (case os_makedirs directory_path s1 of
           (Inl e, s2) \<Rightarrow> if isinstance_OSError e then (Inl OSError, s2) else (Inl e, s2)
         | (Inr u, s2) \<Rightarrow> (Inr (), s2)))"

definition remove_directory :: "path \<Rightarrow> (exn + unit) io" where
  "remove_directory directory_path s =
     (let (is_dir, s1) = is_directory directory_path s in
      if \<not> is_dir then (Inl FileNotFoundError, s1)
      else
        (case shutil_rmtree directory_path s1 of
           (Inl e, s2) \<Rightarrow> if isinstance_OSError e then (Inl OSError, s2) else (Inl e, s2)
         | (Inr u, s2) \<Rightarrow> (Inr (), s2)))"

section \<open>The gateway: listing\<close>

text \<open>The comprehension of the flat branch: every name is tested with \<^verbatim>\<open>is_file\<close>.\<close>

fun keep_files :: "path \<Rightarrow> name list \<Rightarrow> name list io" where
  "keep_files directory_path [] s = ([], s)"
| "keep_files directory_path (f # fs) s =
     (let (b, s1) = is_file (os_path_join directory_path [f]) s;
          (rest, s2) = keep_files directory_path fs s1
      in (if b then f # rest else rest, s2))"

text \<open>The two loops of the recursive branch, over the triples of the walk.\<close>

fun collect :: "path \<Rightarrow> (path \<times> name list \<times> name list) list \<Rightarrow> path list" where
  "collect directory_path [] = []"
| "collect directory_path ((root_path, dirs, files) # rest) =
     map (\<lambda>file. os_path_relpath (os_path_join root_path [file]) directory_path) files
       @ collect directory_path rest"

definition list_files :: "path \<Rightarrow> bool \<Rightarrow> (exn + path list) io" where
  "list_files directory_path include_subdirectories s =
     (let (is_valid_directory, s1) = is_directory directory_path s in
      if \<not> is_valid_directory then (Inl FileNotFoundError, s1)
      else if include_subdirectories then
        (let (triples, s2) = os_walk directory_path s1
         in (Inr (collect directory_path triples), s2))
      else
        (case os_listdir directory_path s1 of
           (Inl e, s2) \<Rightarrow> (Inl e, s2)
         | (Inr names, s2) \<Rightarrow>
             (let (kept, s3) = keep_files directory_path names s2
              in (Inr (map (\<lambda>f. [f]) kept), s3))))"

section \<open>The gateway: timestamps\<close>

text \<open>
  \<^verbatim>\<open>int(x)\<close> of a float drops the fraction: it rounds towards zero.
\<close>

definition py_int :: "rat \<Rightarrow> int" where
  "py_int x = (if 0 \<le> x then \<lfloor>x\<rfloor> else \<lceil>x\<rceil>)"

text \<open>
  \<^verbatim>\<open>datetime.fromtimestamp(t, timezone.utc)\<close> turns the seconds into a calendar date
  and a time of day. The calendar is the proleptic Gregorian one; its arithmetic is
  taken from Python's own \<^verbatim>\<open>datetime\<close> module (the tables \<^verbatim>\<open>_DAYS_IN_MONTH\<close> and
  \<^verbatim>\<open>_DAYS_BEFORE_MONTH\<close>, \<^verbatim>\<open>_is_leap\<close>, \<^verbatim>\<open>_days_before_year\<close>, \<^verbatim>\<open>_ymd2ord\<close> and
  \<^verbatim>\<open>_ord2ymd\<close>), where day 1 is 1 January of year 1 and 1 January 1970 is day 719163.
\<close>

definition DAYS_IN_MONTH :: "int list" where
  "DAYS_IN_MONTH = [-1, 31, 28, 31, 30, 31, 30, 31, 31, 30, 31, 30, 31]"

definition DAYS_BEFORE_MONTH :: "int list" where
  "DAYS_BEFORE_MONTH = [-1, 0, 31, 59, 90, 120, 151, 181, 212, 243, 273, 304, 334]"

definition is_leap :: "int \<Rightarrow> bool" where
  "is_leap year = (year mod 4 = 0 \<and> (year mod 100 \<noteq> 0 \<or> year mod 400 = 0))"

definition days_before_year :: "int \<Rightarrow> int" where
  "days_before_year year = (let y = year - 1 in y * 365 + y div 4 - y div 100 + y div 400)"

definition days_in_month :: "int \<Rightarrow> int \<Rightarrow> int" where
  "days_in_month year month =
     (if month = 2 \<and> is_leap year then 29 else DAYS_IN_MONTH ! nat month)"

definition days_before_month :: "int \<Rightarrow> int \<Rightarrow> int" where
  "days_before_month year month =
     DAYS_BEFORE_MONTH ! nat month + (if month > 2 \<and> is_leap year then 1 else 0)"

definition ymd2ord :: "int \<Rightarrow> int \<Rightarrow> int \<Rightarrow> int" where
  "ymd2ord year month day = days_before_year year + days_before_month year month + day"

definition ord2ymd :: "int \<Rightarrow> int \<times> int \<times> int" where
  "ord2ymd n =
     (let n0 = n - 1;
          n400 = n0 div 146097; r1 = n0 mod 146097;
          n100 = r1 div 36524; r2 = r1 mod 36524;
          n4 = r2 div 1461; r3 = r2 mod 1461;
          n1 = r3 div 365; r4 = r3 mod 365;
          year = n400 * 400 + 1 + n100 * 100 + n4 * 4 + n1
      in if n1 = 4 \<or> n100 = 4 then (year - 1, 12, 31)
         else
           (let leapyear = (n1 = 3 \<and> (n4 \<noteq> 24 \<or> n100 = 3));
                month = (r4 + 50) div 32;
                preceding = DAYS_BEFORE_MONTH ! nat month + (if month > 2 \<and> leapyear then 1 else 0)
            in if preceding > r4
               then (year, month - 1,
                     r4 - (preceding - (DAYS_IN_MONTH ! nat (month - 1)
                                          + (if month - 1 = 2 \<and> leapyear then 1 else 0))) + 1)
               else (year, month, r4 - preceding + 1)))"

text \<open>
  A \<^verbatim>\<open>datetime\<close> in UTC with no microseconds. Its year must lie in 1..9999:
  outside, the constructor raises \<^verbatim>\<open>ValueError\<close> (for times further away still, the
  platform raises \<^verbatim>\<open>OverflowError\<close> or \<^verbatim>\<open>OSError\<close> instead; the model has the one
  error for all of them).
\<close>

record datetime =
  year :: int
  month :: int
  day :: int
  hour :: int
  minute :: int
  second :: int

definition gmtime :: "int \<Rightarrow> datetime" where
  "gmtime t =
     (let days = t div 86400; secs = t mod 86400;
          (y, m, d) = ord2ymd (days + 719163)
      in \<lparr>year = y, month = m, day = d,
          hour = secs div 3600, minute = secs mod 3600 div 60, second = secs mod 60\<rparr>)"

definition datetime_fromtimestamp_utc :: "int \<Rightarrow> exn + datetime" where
  "datetime_fromtimestamp_utc t =
     (let dt = gmtime t in if 1 \<le> year dt \<and> year dt \<le> 9999 then Inr dt else Inl ValueError)"

text \<open>
  \<^verbatim>\<open>isoformat()\<close> prints \<^verbatim>\<open>%04d-%02d-%02dT%02d:%02d:%02d\<close> and the offset of UTC.
\<close>

definition digit :: "int \<Rightarrow> char" where
  "digit n = ''0123456789'' ! nat n"

definition fmt02 :: "int \<Rightarrow> string" where
  "fmt02 n = [digit (n div 10 mod 10), digit (n mod 10)]"

definition fmt04 :: "int \<Rightarrow> string" where
  "fmt04 n = [digit (n div 1000 mod 10), digit (n div 100 mod 10), digit (n div 10 mod 10), digit (n mod 10)]"

definition isoformat :: "datetime \<Rightarrow> string" where
  "isoformat dt =
     fmt04 (year dt) @ ''-'' @ fmt02 (month dt) @ ''-'' @ fmt02 (day dt) @ ''T''
       @ fmt02 (hour dt) @ '':'' @ fmt02 (minute dt) @ '':'' @ fmt02 (second dt) @ ''+00:00''"

definition get_file_timestamp :: "path \<Rightarrow> (exn + string) io" where
  "get_file_timestamp file_path s =
     (let (is_file_found, s1) = is_file file_path s in
      if \<not> is_file_found then (Inl FileNotFoundError, s1)
      else
        (case os_stat file_path s1 of
           (Inl e, s2) \<Rightarrow> (Inl e, s2)
         | (Inr st, s2) \<Rightarrow>
             (let last_modified_timestamp_seconds = py_int (st_mtime st) in
              case datetime_fromtimestamp_utc last_modified_timestamp_seconds of
                Inl e \<Rightarrow> (Inl e, s2)
              | Inr timestamp \<Rightarrow> (Inr (isoformat timestamp), s2))))"

section \<open>The gateway: the UTF-8 check\<close>

text \<open>
  \<^verbatim>\<open>bytes.decode('utf-8')\<close> in strict mode: it reads one code point after another
  and raises \<^verbatim>\<open>UnicodeDecodeError\<close> at the first byte that cannot start or continue
  one. A lead byte fixes the length of the sequence; \<^verbatim>\<open>C0\<close>, \<^verbatim>\<open>C1\<close> and \<^verbatim>\<open>F5\<close> to
  \<^verbatim>\<open>FF\<close> are never lead bytes, and the second byte is narrowed after \<^verbatim>\<open>E0\<close>, \<^verbatim>\<open>ED\<close>,
  \<^verbatim>\<open>F0\<close> and \<^verbatim>\<open>F4\<close> so that overlong forms, surrogates and values above
  \<^verbatim>\<open>10FFFF\<close> are refused.
\<close>

definition continuation :: "byte \<Rightarrow> bool" where
  "continuation b = (0x80 \<le> b \<and> b \<le> 0xBF)"

definition second_of_3 :: "byte \<Rightarrow> byte \<Rightarrow> bool" where
  "second_of_3 b0 b1 =
     (if b0 = 0xE0 then 0xA0 \<le> b1 \<and> b1 \<le> 0xBF
      else if b0 = 0xED then 0x80 \<le> b1 \<and> b1 \<le> 0x9F
      else continuation b1)"

definition second_of_4 :: "byte \<Rightarrow> byte \<Rightarrow> bool" where
  "second_of_4 b0 b1 =
     (if b0 = 0xF0 then 0x90 \<le> b1 \<and> b1 \<le> 0xBF
      else if b0 = 0xF4 then 0x80 \<le> b1 \<and> b1 \<le> 0x8F
      else continuation b1)"

fun utf8_step :: "byte list \<Rightarrow> (nat \<times> byte list) option" where
  "utf8_step [] = None"
| "utf8_step (b0 # bs) =
     (if b0 \<le> 0x7F then Some (unat b0, bs)
      else if 0xC2 \<le> b0 \<and> b0 \<le> 0xDF then
        (case bs of
           b1 # r \<Rightarrow>
             if continuation b1 then Some ((unat b0 - 0xC0) * 64 + (unat b1 - 0x80), r)
             else None
         | _ \<Rightarrow> None)
      else if 0xE0 \<le> b0 \<and> b0 \<le> 0xEF then
        (case bs of
           b1 # b2 # r \<Rightarrow>
             if second_of_3 b0 b1 \<and> continuation b2
             then Some ((unat b0 - 0xE0) * 4096 + (unat b1 - 0x80) * 64 + (unat b2 - 0x80), r)
             else None
         | _ \<Rightarrow> None)
      else if 0xF0 \<le> b0 \<and> b0 \<le> 0xF4 then
        (case bs of
           b1 # b2 # b3 # r \<Rightarrow>
             if second_of_4 b0 b1 \<and> continuation b2 \<and> continuation b3
             then Some ((unat b0 - 0xF0) * 262144 + (unat b1 - 0x80) * 4096
                          + (unat b2 - 0x80) * 64 + (unat b3 - 0x80), r)
             else None
         | _ \<Rightarrow> None)
      else None)"

lemma utf8_step_shorter: "utf8_step bs = Some (cp, r) \<Longrightarrow> length r < length bs"
  by (cases bs) (auto split: if_splits list.splits)

function utf8_decode :: "byte list \<Rightarrow> exn + nat list" where
  "utf8_decode bs =
     (if bs = [] then Inr []
      else
        (case utf8_step bs of
           None \<Rightarrow> Inl UnicodeDecodeError
         | Some (cp, r) \<Rightarrow>
             (case utf8_decode r of
                Inl e \<Rightarrow> Inl e
              | Inr cps \<Rightarrow> Inr (cp # cps))))"
  by pat_completeness auto
termination
  by (relation "measure length") (auto dest: utf8_step_shorter)

declare utf8_decode.simps [simp del]

text \<open>
  \<^verbatim>\<open>open(file_path, 'rb')\<close> and \<^verbatim>\<open>read()\<close>: all the bytes of a regular file. On
  anything else the model raises \<^verbatim>\<open>OSError\<close>; the gateway opens a path only behind
  its \<^verbatim>\<open>is_file\<close> check.
\<close>

definition open_read :: "path \<Rightarrow> (exn + byte list) io" where
  "open_read p s =
     (case lookup s p of
        None \<Rightarrow> (Inl (if blocked s p then NotADirectoryError else FileNotFoundError), s)
      | Some (File c m) \<Rightarrow> (Inr c, s)
      | Some _ \<Rightarrow> (Inl OSError, s))"

definition is_utf8_encoded :: "path \<Rightarrow> (exn + bool) io" where
  "is_utf8_encoded file_path s =
     (let (is_file_found, s1) = is_file file_path s in
      if \<not> is_file_found then (Inl FileNotFoundError, s1)
      else
        (case open_read file_path s1 of
           (Inl e, s2) \<Rightarrow> if e = UnicodeDecodeError then (Inr False, s2) else (Inl e, s2)
         | (Inr raw_data, s2) \<Rightarrow>
             (case utf8_decode raw_data of
                Inl e \<Rightarrow> if e = UnicodeDecodeError then (Inr False, s2) else (Inl e, s2)
              | Inr decoded \<Rightarrow> (Inr True, s2))))"

section \<open>What the statements are measured against\<close>

text \<open>
  A tree is well formed when no directory holds two entries of one name.
\<close>

fun wf_fs :: "(name \<times> node) list \<Rightarrow> bool" where
  "wf_fs [] = True"
| "wf_fs ((n, Dir es') # rest) = (n \<notin> set (map fst rest) \<and> wf_fs es' \<and> wf_fs rest)"
| "wf_fs ((n, x) # rest) = (n \<notin> set (map fst rest) \<and> wf_fs rest)"

text \<open>A path names something that is not a directory.\<close>

definition nondir_at :: "fs \<Rightarrow> path \<Rightarrow> bool" where
  "nondir_at s p = (case obj_at s p of None \<Rightarrow> False | Some Directory \<Rightarrow> False | Some x \<Rightarrow> True)"

text \<open>The paths, seen from a directory, of what lies inside its subdirectories.\<close>

definition below_subdirs :: "path \<Rightarrow> (name \<times> node) list \<Rightarrow> path set" where
  "below_subdirs q0 es =
     {q0 @ n # q | n q. q \<noteq> [] \<and> (\<exists>es'. map_of es n = Some (Dir es') \<and> nondir_at es' q)}"

text \<open>
  An ordinary name can be given to a new entry; a plain path is made of ordinary names
  and short enough to be passed to the OS.
\<close>

definition ordinary_name :: "name \<Rightarrow> bool" where
  "ordinary_name n \<longleftrightarrow>
     n \<noteq> [] \<and> n \<noteq> ''.'' \<and> n \<noteq> ''..'' \<and> length n \<le> 255
     \<and> CHR ''/'' \<notin> set n \<and> CHR 0x00 \<notin> set n"

definition plain_path :: "path \<Rightarrow> bool" where
  "plain_path p \<longleftrightarrow> list_all ordinary_name p \<and> path_length p \<le> 4095"

text \<open>
  UTF-8 as the standard defines it: a byte sequence is well formed when it is the
  encoding of a sequence of Unicode scalar values (code points up to \<^verbatim>\<open>10FFFF\<close> that
  are not surrogates), each written in its shortest form.
\<close>

definition scalar_value :: "nat \<Rightarrow> bool" where
  "scalar_value cp = (cp < 0xD800 \<or> (0xE000 \<le> cp \<and> cp < 0x110000))"

definition utf8_encode :: "nat \<Rightarrow> byte list" where
  "utf8_encode cp =
     (if cp < 0x80 then [of_nat cp]
      else if cp < 0x800 then [of_nat (0xC0 + cp div 64), of_nat (0x80 + cp mod 64)]
      else if cp < 0x10000 then
        [of_nat (0xE0 + cp div 4096), of_nat (0x80 + cp div 64 mod 64), of_nat (0x80 + cp mod 64)]
      else
        [of_nat (0xF0 + cp div 262144), of_nat (0x80 + cp div 4096 mod 64),
         of_nat (0x80 + cp div 64 mod 64), of_nat (0x80 + cp mod 64)])"

definition well_formed_utf8 :: "byte list \<Rightarrow> bool" where
  "well_formed_utf8 bs \<longleftrightarrow> (\<exists>cps. list_all scalar_value cps \<and> concat (map utf8_encode cps) = bs)"

text \<open>
  A calendar date and time of day, and the seconds it lies from the epoch.
\<close>

definition valid_datetime :: "datetime \<Rightarrow> bool" where
  "valid_datetime dt \<longleftrightarrow>
     1 \<le> year dt \<and> year dt \<le> 9999 \<and> 1 \<le> month dt \<and> month dt \<le> 12
     \<and> 1 \<le> day dt \<and> day dt \<le> days_in_month (year dt) (month dt)
     \<and> 0 \<le> hour dt \<and> hour dt < 24 \<and> 0 \<le> minute dt \<and> minute dt < 60
     \<and> 0 \<le> second dt \<and> second dt < 60"

definition epoch_seconds :: "datetime \<Rightarrow> int" where
  "epoch_seconds dt =
     (ymd2ord (year dt) (month dt) (day dt) - ymd2ord 1970 1 1) * 86400
       + hour dt * 3600 + minute dt * 60 + second dt"

text \<open>
  Two parts of \<^verbatim>\<open>_ord2ymd\<close> on their own, for the proofs: the search for the month
  within a year, and the function on the digits of the day number.
\<close>

definition month_day :: "bool \<Rightarrow> int \<Rightarrow> int \<times> int" where
  "month_day leapyear r4 =
     (let month = (r4 + 50) div 32;
          preceding = DAYS_BEFORE_MONTH ! nat month + (if month > 2 \<and> leapyear then 1 else 0)
      in if preceding > r4
         then (month - 1,
               r4 - (preceding - (DAYS_IN_MONTH ! nat (month - 1)
                                    + (if month - 1 = 2 \<and> leapyear then 1 else 0))) + 1)
         else (month, r4 - preceding + 1))"

definition ord2ymd_parts :: "int \<Rightarrow> int \<Rightarrow> int \<Rightarrow> int \<Rightarrow> int \<Rightarrow> int \<times> int \<times> int" where
  "ord2ymd_parts n400 n100 n4 n1 r4 =
     (let year = n400 * 400 + 1 + n100 * 100 + n4 * 4 + n1
      in if n1 = 4 \<or> n100 = 4 then (year - 1, 12, 31)
         else
           (let leapyear = (n1 = 3 \<and> (n4 \<noteq> 24 \<or> n100 = 3));
                month = (r4 + 50) div 32;
                preceding = DAYS_BEFORE_MONTH ! nat month + (if month > 2 \<and> leapyear then 1 else 0)
            in if preceding > r4
               then (year, month - 1,
                     r4 - (preceding - (DAYS_IN_MONTH ! nat (month - 1)
                                          + (if month - 1 = 2 \<and> leapyear then 1 else 0))) + 1)
               else (year, month, r4 - preceding + 1)))"

section \<open>A directory of test fixtures\<close>

text \<open>
  A tree shaped like the fixtures of the test suite: one file at the top, files one and
  two levels down. \<^verbatim>\<open>text_file.txt\<close> holds the nine bytes of \<^verbatim>\<open>test data\<close>.
\<close>

definition test_data :: "byte list" where
  "test_data = [116, 101, 115, 116, 32, 100, 97, 116, 97]"

definition fixtures :: fs where
  "fixtures =
     [(''top_level_text_file.txt'', File test_data 1682000000),
      (''txt'', Dir [(''text_file.txt'', File test_data 1682000000),
                     (''non_utf8_sample.txt'', File [255, 254, 253] (3364000001 / 2))]),
      (''tex'', Dir [(''latex2e_example.tex'', File [] 0),
                     (''deep'', Dir [(''latex209_example.tex'', File [] 0)])])]"

text \<open>A directory that holds a FIFO beside its files.\<close>

definition fifo_tree :: fs where
  "fifo_tree =
     [(''d'', Dir [(''a.txt'', File test_data 1682000000),
                   (''pipe'', Special),
                   (''sub'', Dir [(''b.txt'', File [] 0)])])]"


section \<open>Properties\<close>

subsection \<open>Resolution and the library calls\<close>

lemma obj_at_Nil [simp]: "obj_at s [] = Some Directory"
  by (simp add: obj_at_def)

lemma obj_at_Cons:
  "obj_at s (n # ns) =
     (case map_of s n of
        None \<Rightarrow> None
      | Some (Dir es') \<Rightarrow> obj_at es' ns
      | Some x \<Rightarrow> (if ns = [] then Some (view x) else None))"
  by (simp add: obj_at_def split: option.split node.split)

lemma os_stat_eq:
  "os_stat p s = (case lookup s p of None \<Rightarrow> (Inl (if blocked s p then NotADirectoryError else FileNotFoundError), s) | Some x \<Rightarrow> (Inr (stat_of x), s))"
  by (simp add: os_stat_def)

lemma is_file_eq: "is_file p s = (file_at s p, s)"
proof (cases "lookup s p")
  case None
  then show ?thesis by (simp add: is_file_def os_path_isfile_def os_stat_def file_at_def obj_at_def)
next
  case (Some x)
  then show ?thesis
    by (cases x) (simp_all add: is_file_def os_path_isfile_def os_stat_def file_at_def obj_at_def)
qed

lemma is_directory_eq: "is_directory p s = (dir_at s p, s)"
proof (cases "lookup s p")
  case None
  then show ?thesis by (simp add: is_directory_def os_path_isdir_def os_stat_def dir_at_def obj_at_def)
next
  case (Some x)
  then show ?thesis
    by (cases x) (simp_all add: is_directory_def os_path_isdir_def os_stat_def dir_at_def obj_at_def)
qed

lemma is_object_eq: "is_object p s = (exists_at s p, s)"
  by (simp add: is_object_def os_path_exists_def os_stat_def exists_at_def obj_at_def
      split: option.split node.split)

lemma os_path_exists_eq: "os_path_exists p s = (exists_at s p, s)"
  by (simp add: os_path_exists_def os_stat_def exists_at_def obj_at_def
      split: option.split node.split)

lemma get_file_size_eq:
  "get_file_size p s =
     (case obj_at s p of Some (Regular c m) \<Rightarrow> (Inr (length c), s) | _ \<Rightarrow> (Inl FileNotFoundError, s))"
proof (cases "lookup s p")
  case None
  then show ?thesis
    by (simp add: get_file_size_def is_file_eq file_at_def os_path_getsize_def os_stat_def obj_at_def)
next
  case (Some x)
  then show ?thesis
    by (cases x)
      (simp_all add: get_file_size_def is_file_eq file_at_def os_path_getsize_def os_stat_def obj_at_def)
qed

declare os_makedirs.simps [simp del]

lemma mkdir_at_Cons:
  "ns \<noteq> [] \<Longrightarrow> mkdir_at es (n # ns) =
     (case map_of es n of
        None \<Rightarrow> Inl FileNotFoundError
      | Some (Dir es') \<Rightarrow>
          (case mkdir_at es' ns of
             Inl e \<Rightarrow> Inl e
           | Inr es'' \<Rightarrow> Inr (AList.update n (Dir es'') es))
      | Some x \<Rightarrow> Inl NotADirectoryError)"
  by (cases ns) auto

lemma rmtree_at_Cons:
  "ns \<noteq> [] \<Longrightarrow> rmtree_at es (n # ns) =
     (case map_of es n of
        None \<Rightarrow> (Inl FileNotFoundError, es)
      | Some (Dir es') \<Rightarrow>
          (case rmtree_at es' ns of (r, es'') \<Rightarrow> (r, AList.update n (Dir es'') es))
      | Some x \<Rightarrow> (Inl NotADirectoryError, es))"
  by (cases ns) auto

lemma exists_below_dir:
  "exists_at s (q @ r) \<Longrightarrow> r \<noteq> [] \<Longrightarrow> dir_at s q"
proof (induction q arbitrary: s)
  case Nil
  then show ?case by (simp add: dir_at_def)
next
  case (Cons n qs)
  then show ?case
    by (auto simp: exists_at_def dir_at_def obj_at_Cons split: option.splits node.splits)
qed

lemma blocked_snoc:
  "blocked s (q @ [n]) \<longleftrightarrow> blocked s q \<or> (\<exists>x. obj_at s q = Some x \<and> x \<noteq> Directory)"
proof (induction q arbitrary: s)
  case Nil
  then show ?case by (simp split: option.splits node.splits)
next
  case (Cons m qs)
  then show ?case
    by (auto simp: obj_at_Cons split: option.splits node.splits)
qed

lemma blocked_not_exists: "blocked s p \<Longrightarrow> \<not> exists_at s p"
proof (induction p arbitrary: s)
  case Nil
  then show ?case by simp
next
  case (Cons n ns)
  then show ?case
    by (auto simp: exists_at_def obj_at_Cons split: option.splits node.splits)
qed

lemma mkdir_at_ok:
  "dir_at s q \<Longrightarrow> \<not> exists_at s (q @ [n]) \<Longrightarrow>
     \<exists>s'. mkdir_at s (q @ [n]) = Inr s' \<and>
       (\<forall>r. obj_at s' r = (if r = q @ [n] then Some Directory else obj_at s r))"
proof (induction q arbitrary: s)
  case Nil
  then have none: "map_of s n = None"
    by (auto simp: exists_at_def obj_at_Cons split: option.splits node.splits)
  have "obj_at (s @ [(n, Dir [])]) r = (if r = [n] then Some Directory else obj_at s r)" for r
  proof (cases r)
    case Nil
    then show ?thesis by simp
  next
    case (Cons m rs)
    then show ?thesis using none
      by (cases rs) (auto simp: obj_at_Cons map_add_def split: option.splits node.splits)
  qed
  then show ?case using none by simp
next
  case (Cons m qs)
  from Cons.prems obtain es where es: "map_of s m = Some (Dir es)" and d: "dir_at es qs"
    by (auto simp: dir_at_def obj_at_Cons split: option.splits node.splits if_splits)
  from Cons.prems(2) es have ne: "\<not> exists_at es (qs @ [n])"
    by (auto simp: exists_at_def obj_at_Cons)
  from Cons.IH [OF d ne] obtain es' where
    mk: "mkdir_at es (qs @ [n]) = Inr es'" and
    fr: "\<And>r. obj_at es' r = (if r = qs @ [n] then Some Directory else obj_at es r)"
    by blast
  have "obj_at (AList.update m (Dir es') s) r =
          (if r = (m # qs) @ [n] then Some Directory else obj_at s r)" for r
  proof (cases r)
    case Nil
    then show ?thesis by simp
  next
    case (Cons k rs)
    then show ?thesis using es fr
      by (auto simp: obj_at_Cons update_conv' split: option.splits node.splits)
  qed
  then show ?case using es mk by (simp add: mkdir_at_Cons)
qed

lemma mkdir_at_below_nondir:
  "obj_at s q = Some x \<Longrightarrow> x \<noteq> Directory \<Longrightarrow> mkdir_at s (q @ [n]) = Inl NotADirectoryError"
proof (induction q arbitrary: s)
  case Nil
  then show ?case by simp
next
  case (Cons m qs)
  show ?case
  proof (cases "map_of s m")
    case None
    then show ?thesis using Cons.prems by (simp add: obj_at_Cons)
  next
    case (Some y)
    show ?thesis
    proof (cases y)
      case (Dir es)
      then have "obj_at es qs = Some x" using Some Cons.prems by (simp add: obj_at_Cons)
      from Cons.IH [OF this Cons.prems(2)] show ?thesis using Some Dir by (simp add: mkdir_at_Cons)
    next
      case (File c m')
      then show ?thesis using Some by (simp add: mkdir_at_Cons)
    next
      case Special
      then show ?thesis using Some by (simp add: mkdir_at_Cons)
    qed
  qed
qed

lemma rmtree_at_ok:
  "dir_at s p \<Longrightarrow> p \<noteq> [] \<Longrightarrow>
     \<exists>s'. rmtree_at s p = (Inr (), s') \<and>
       (\<forall>r. obj_at s' r = (if prefix p r then None else obj_at s r))"
proof (induction p arbitrary: s)
  case Nil
  then show ?case by simp
next
  case (Cons n ns)
  from Cons.prems obtain es where es: "map_of s n = Some (Dir es)" and d: "dir_at es ns"
    by (auto simp: dir_at_def obj_at_Cons split: option.splits node.splits if_splits)
  show ?case
  proof (cases "ns = []")
    case True
    have "obj_at (AList.delete n s) r = (if prefix [n] r then None else obj_at s r)" for r
      by (cases r) (auto simp: obj_at_Cons delete_conv' split: option.splits node.splits)
    then show ?thesis using True es by simp
  next
    case False
    from Cons.IH [OF d False] obtain es' where
      rm: "rmtree_at es ns = (Inr (), es')" and
      fr: "\<And>r. obj_at es' r = (if prefix ns r then None else obj_at es r)"
      by blast
    have "obj_at (AList.update n (Dir es') s) r = (if prefix (n # ns) r then None else obj_at s r)" for r
      using es fr
      by (cases r) (auto simp: obj_at_Cons update_conv' split: option.splits node.splits)
    then show ?thesis using False es rm by (simp add: rmtree_at_Cons)
  qed
qed

lemma path_length_butlast: "path_length (butlast p) \<le> path_length p"
  by (cases p rule: rev_cases) (simp_all add: path_length_def)

lemma plain_path_butlast: "plain_path p \<Longrightarrow> plain_path (butlast p)"
proof -
  assume a: "plain_path p"
  then have "list_all ordinary_name (butlast p)"
    by (auto simp: plain_path_def list_all_iff dest: in_set_butlastD)
  moreover have "path_length (butlast p) \<le> 4095"
    using a path_length_butlast [of p] by (simp add: plain_path_def)
  ultimately show ?thesis by (simp add: plain_path_def)
qed

lemma os_mkdir_plain:
  assumes "plain_path p" "p \<noteq> []"
  shows "os_mkdir p s = (case mkdir_at s p of Inl e \<Rightarrow> (Inl e, s) | Inr s' \<Rightarrow> (Inr (), s'))"
proof -
  from assms have "ordinary_name (last p)" by (simp add: plain_path_def list_all_iff)
  then have "name_refused (last p) = None"
    by (simp add: ordinary_name_def name_refused_def NAME_MAX_def)
  moreover have "\<not> embedded_null p"
    using assms(1) by (auto simp: plain_path_def list_all_iff embedded_null_def list_ex_iff
        ordinary_name_def)
  moreover have "\<not> PATH_MAX \<le> path_length p"
    using assms(1) by (simp add: plain_path_def PATH_MAX_def)
  ultimately show ?thesis by (simp add: os_mkdir_def split: sum.splits)
qed

lemma os_mkdir_ok:
  assumes "dir_at s (butlast p)" "\<not> exists_at s p" "p \<noteq> []" "plain_path p"
  shows "\<exists>s'. os_mkdir p s = (Inr (), s') \<and>
       (\<forall>r. obj_at s' r = (if r = p then Some Directory else obj_at s r))"
proof -
  from assms(3) have p: "p = butlast p @ [last p]" by simp
  from mkdir_at_ok [of s "butlast p" "last p"] assms(1,2) p
  obtain s' where "mkdir_at s p = Inr s'"
    "\<forall>r. obj_at s' r = (if r = p then Some Directory else obj_at s r)"
    by auto
  then show ?thesis by (simp add: os_mkdir_plain [OF assms(4,3)])
qed

lemma os_mkdir_below_nondir:
  assumes "obj_at s (butlast p) = Some x" "x \<noteq> Directory" "p \<noteq> []" "plain_path p"
  shows "os_mkdir p s = (Inl NotADirectoryError, s)"
proof -
  from assms(3) have p: "p = butlast p @ [last p]" by simp
  from mkdir_at_below_nondir [OF assms(1,2), of "last p"] p
  have "mkdir_at s p = Inl NotADirectoryError" by simp
  then show ?thesis by (simp add: os_mkdir_plain [OF assms(4,3)])
qed

lemma mkdir_at_Inr: "mkdir_at s p = Inr s' \<Longrightarrow> obj_at s' p = Some Directory"
proof (induction s p arbitrary: s' rule: mkdir_at.induct)
  case (1 es)
  then show ?case by simp
next
  case (2 es n)
  then show ?case
    by (auto simp: obj_at_Cons map_add_def split: option.splits)
next
  case (3 es n m ns)
  from "3.prems" obtain es' es'' where es: "map_of es n = Some (Dir es')"
    and mk: "mkdir_at es' (m # ns) = Inr es''" and s': "s' = AList.update n (Dir es'') es"
    by (auto split: option.splits node.splits sum.splits)
  from "3.IH" [OF es refl mk] show ?case
    by (simp add: s' obj_at_Cons update_conv')
qed

lemma os_mkdir_Inr: "os_mkdir p s = (Inr u, s') \<Longrightarrow> dir_at s' p"
  by (auto simp: os_mkdir_def dir_at_def mkdir_at_Inr split: if_splits sum.splits option.splits)

lemma os_makedirs_Inr: "os_makedirs name s = (Inr u, s') \<Longrightarrow> dir_at s' name"
  by (subst (asm) os_makedirs.simps)
    (auto dest: os_mkdir_Inr split: if_splits prod.splits sum.splits)

lemma blocked_butlast:
  "p \<noteq> [] \<Longrightarrow> blocked s p \<longleftrightarrow> blocked s (butlast p) \<or> (\<exists>x. obj_at s (butlast p) = Some x \<and> x \<noteq> Directory)"
  using blocked_snoc [of s "butlast p" "last p"] by simp

lemma prefix_butlast_iff:
  "p \<noteq> [] \<Longrightarrow> prefix r p \<longleftrightarrow> r = p \<or> prefix r (butlast p)"
  using prefix_snoc [of r "butlast p" "last p"] by auto

lemma prefix_of_dir:
  "dir_at s p \<Longrightarrow> prefix r p \<Longrightarrow> dir_at s r"
proof -
  assume d: "dir_at s p" and "prefix r p"
  then obtain zs where p: "p = r @ zs" by (auto simp: prefix_def)
  show "dir_at s r"
  proof (cases "zs = []")
    case True
    with d p show ?thesis by simp
  next
    case False
    from d p have "exists_at s (r @ zs)" by (simp add: exists_at_def dir_at_def)
    from exists_below_dir [OF this False] show ?thesis .
  qed
qed

lemma os_makedirs_rec:
  "name \<noteq> [] \<Longrightarrow> butlast name \<noteq> [] \<Longrightarrow> \<not> exists_at s (butlast name) \<Longrightarrow>
     os_makedirs name s =
       (case os_makedirs (butlast name) s of
           (Inl e, s1) \<Rightarrow> if e = FileExistsError then os_mkdir name s1 else (Inl e, s1)
         | (Inr u, s1) \<Rightarrow> os_mkdir name s1)"
  by (subst os_makedirs.simps) (simp add: os_path_exists_eq)

lemma os_makedirs_base:
  "name = [] \<or> butlast name = [] \<or> exists_at s (butlast name) \<Longrightarrow>
     os_makedirs name s = os_mkdir name s"
  by (subst os_makedirs.simps) (auto simp add: os_path_exists_eq)

lemma os_makedirs_ok:
  "\<not> exists_at s name \<Longrightarrow> \<not> blocked s name \<Longrightarrow> plain_path name \<Longrightarrow>
     \<exists>s'. os_makedirs name s = (Inr (), s') \<and>
       (\<forall>r. obj_at s' r = (if prefix r name then Some Directory else obj_at s r))"
proof (induction name s rule: os_makedirs.induct)
  case (1 name s)
  from "1.prems"(1) have ne: "name \<noteq> []" by (auto simp: exists_at_def)
  let ?head = "butlast name"
  from "1.prems"(2) ne have nb: "\<not> blocked s ?head"
    and nd: "\<And>x. obj_at s ?head = Some x \<Longrightarrow> x = Directory"
    by (auto simp: blocked_butlast)
  show ?case
  proof (cases "?head \<noteq> [] \<and> \<not> exists_at s ?head")
    case True
    then have c: "name \<noteq> [] \<and> ?head \<noteq> [] \<and> \<not> fst (os_path_exists ?head s)"
      using ne by (simp add: os_path_exists_eq)
    from "1.IH" [OF c] True nb plain_path_butlast [OF "1.prems"(3)] obtain s1 where
      mk: "os_makedirs ?head s = (Inr (), s1)" and
      fr: "\<And>r. obj_at s1 r = (if prefix r ?head then Some Directory else obj_at s r)"
      by blast
    have d1: "dir_at s1 ?head" by (simp add: dir_at_def fr)
    have "\<not> prefix name ?head"
    proof
      assume "prefix name ?head"
      then have "length name \<le> length ?head" by (rule prefix_length_le)
      moreover have "length ?head < length name"
        using ne by (cases name rule: rev_cases) simp_all
      ultimately show False by (meson leD)
    qed
    then have e1: "\<not> exists_at s1 name" using "1.prems"(1) by (simp add: exists_at_def fr)
    from os_mkdir_ok [OF d1 e1 ne "1.prems"(3)] obtain s' where
      mk': "os_mkdir name s1 = (Inr (), s')" and
      fr': "\<And>r. obj_at s' r = (if r = name then Some Directory else obj_at s1 r)"
      by blast
    have "os_makedirs name s = (Inr (), s')"
      using True ne mk mk' by (simp add: os_makedirs_rec)
    moreover have "obj_at s' r = (if prefix r name then Some Directory else obj_at s r)" for r
      by (simp add: fr' fr prefix_butlast_iff [OF ne])
    ultimately show ?thesis by blast
  next
    case False
    then have d: "dir_at s ?head" using nd
      by (auto simp: dir_at_def exists_at_def)
    from os_mkdir_ok [OF d "1.prems"(1) ne "1.prems"(3)] obtain s' where
      mk: "os_mkdir name s = (Inr (), s')" and
      fr: "\<And>r. obj_at s' r = (if r = name then Some Directory else obj_at s r)"
      by blast
    have "obj_at s' r = (if prefix r name then Some Directory else obj_at s r)" for r
    proof (cases "prefix r ?head")
      case True
      from prefix_of_dir [OF d True] have "obj_at s r = Some Directory" by (simp add: dir_at_def)
      then show ?thesis using True by (simp add: fr prefix_butlast_iff [OF ne])
    next
      case False
      then show ?thesis by (simp add: fr prefix_butlast_iff [OF ne])
    qed
    moreover have "os_makedirs name s = (Inr (), s')"
      using False mk os_makedirs_base [of name s] by auto
    ultimately show ?thesis by blast
  qed
qed

lemma os_makedirs_blocked:
  "blocked s name \<Longrightarrow> plain_path name \<Longrightarrow> os_makedirs name s = (Inl NotADirectoryError, s)"
proof (induction name s rule: os_makedirs.induct)
  case (1 name s)
  from "1.prems"(1) have ne: "name \<noteq> []" by auto
  let ?head = "butlast name"
  show ?case
  proof (cases "?head \<noteq> [] \<and> \<not> exists_at s ?head")
    case True
    then have c: "name \<noteq> [] \<and> ?head \<noteq> [] \<and> \<not> fst (os_path_exists ?head s)"
      using ne by (simp add: os_path_exists_eq)
    from "1.prems"(1) ne True have "blocked s ?head"
      by (auto simp: blocked_butlast exists_at_def)
    from "1.IH" [OF c this plain_path_butlast [OF "1.prems"(2)]]
    have "os_makedirs ?head s = (Inl NotADirectoryError, s)" .
    then show ?thesis using True ne by (simp add: os_makedirs_rec)
  next
    case False
    have "\<not> blocked s ?head"
      using False blocked_not_exists [of s ?head] by auto
    with "1.prems"(1) ne obtain x where "obj_at s ?head = Some x" "x \<noteq> Directory"
      by (auto simp: blocked_butlast)
    from os_mkdir_below_nondir [OF this ne "1.prems"(2)] show ?thesis
      using False os_makedirs_base [of name s] by auto
  qed
qed

lemma create_directory_exists:
  "exists_at s p \<Longrightarrow> create_directory p s = (Inl FileExistsError, s)"
  by (simp add: create_directory_def is_object_eq)

lemma create_directory_blocked:
  "blocked s p \<Longrightarrow> plain_path p \<Longrightarrow> create_directory p s = (Inl OSError, s)"
  using blocked_not_exists [of s p]
  by (simp add: create_directory_def is_object_eq os_makedirs_blocked)

lemma create_directory_ok:
  "\<not> exists_at s p \<Longrightarrow> \<not> blocked s p \<Longrightarrow> plain_path p \<Longrightarrow>
     \<exists>s'. create_directory p s = (Inr (), s') \<and>
       (\<forall>r. obj_at s' r = (if prefix r p then Some Directory else obj_at s r))"
  using os_makedirs_ok [of s p]
  by (auto simp: create_directory_def is_object_eq)

lemma create_directory_Inr:
  "create_directory p s = (Inr u, s') \<Longrightarrow> dir_at s' p"
  by (auto simp: create_directory_def is_object_eq dest: os_makedirs_Inr
      split: if_splits prod.splits sum.splits)

lemma remove_directory_eq:
  "remove_directory p s =
     (if \<not> dir_at s p then (Inl FileNotFoundError, s)
      else if p = [] then (Inl OSError, [])
      else (Inr (), snd (rmtree_at s p)))"
  using rmtree_at_ok [of s p]
  by (auto simp: remove_directory_def is_directory_eq shutil_rmtree_def)

subsection \<open>Listing\<close>

lemma lookup_append:
  "lookup s d = Some (Dir es) \<Longrightarrow> lookup s (d @ q) = lookup es q"
proof (induction d arbitrary: s)
  case Nil
  then show ?case by simp
next
  case (Cons n ns)
  then show ?case
    by (cases q) (auto split: option.splits node.splits if_splits)
qed

lemma obj_at_append:
  "lookup s d = Some (Dir es) \<Longrightarrow> obj_at s (d @ q) = obj_at es q"
  by (simp add: obj_at_def lookup_append)

lemma dir_at_lookup: "dir_at s d \<longleftrightarrow> (\<exists>es. lookup s d = Some (Dir es))"
proof (cases "lookup s d")
  case None
  then show ?thesis by (simp add: dir_at_def obj_at_def)
next
  case (Some x)
  then show ?thesis by (cases x) (simp_all add: dir_at_def obj_at_def)
qed

lemma longest_common_prefix_append: "longest_common_prefix d (d @ r) = d"
  by (induction d) simp_all

lemma relpath_below: "r \<noteq> [] \<Longrightarrow> os_path_relpath (d @ r) d = r"
  by (simp add: os_path_relpath_def longest_common_prefix_append)

lemma keep_files_eq:
  "keep_files d names s = (filter (\<lambda>f. file_at s (d @ [f])) names, s)"
  by (induction names) (simp_all add: is_file_eq os_path_join_def)

lemma file_at_child:
  "file_at es [f] \<Longrightarrow> f \<in> set (map fst es)"
proof -
  assume "file_at es [f]"
  then obtain x where "map_of es f = Some x"
    by (auto simp: file_at_def obj_at_Cons split: option.splits)
  then have "(f, x) \<in> set es" by (rule map_of_SomeD)
  then show ?thesis by force
qed

lemma list_files_flat:
  assumes "dir_at s d"
  shows "\<exists>names. list_files d False s = (Inr names, s)
           \<and> set names = {[f] | f. file_at s (d @ [f])}"
proof -
  from assms obtain es where es: "lookup s d = Some (Dir es)" by (auto simp: dir_at_lookup)
  have f: "file_at s (d @ q) = file_at es q" for q
    by (simp add: file_at_def obj_at_append [OF es])
  have "list_files d False s = (Inr (map (\<lambda>f. [f]) (filter (\<lambda>f. file_at s (d @ [f])) (map fst es))), s)"
    using assms es by (simp add: list_files_def is_directory_eq os_listdir_def keep_files_eq)
  moreover have "set (map (\<lambda>f. [f]) (filter (\<lambda>f. file_at s (d @ [f])) (map fst es)))
      = {[f] | f. file_at s (d @ [f])}"
    using file_at_child [of es] by (auto simp: f)
  ultimately show ?thesis by blast
qed


lemma wf_fs_distinct: "wf_fs es \<Longrightarrow> distinct (map fst es)"
  by (induction es rule: wf_fs.induct) simp_all

lemma wf_fs_child: "wf_fs es \<Longrightarrow> map_of es n = Some (Dir es') \<Longrightarrow> wf_fs es'"
  by (induction es rule: wf_fs.induct) (auto split: if_splits)

lemma wf_fs_lookup: "wf_fs s \<Longrightarrow> lookup s d = Some (Dir es) \<Longrightarrow> wf_fs es"
proof (induction d arbitrary: s)
  case Nil
  then show ?case by simp
next
  case (Cons n ns)
  then show ?case
    by (auto split: option.splits node.splits if_splits dest: wf_fs_child)
qed

lemma collect_append: "collect d (xs @ ys) = collect d xs @ collect d ys"
  by (induction xs) auto

lemma nondir_at_Cons:
  "nondir_at es (n # q) \<longleftrightarrow>
     (case map_of es n of
        None \<Rightarrow> False
      | Some (Dir es') \<Rightarrow> q \<noteq> [] \<and> nondir_at es' q
      | Some x \<Rightarrow> q = [])"
  by (auto simp: nondir_at_def obj_at_Cons split: option.splits node.splits obj.splits)

lemma below_subdirs_Nil: "below_subdirs q0 [] = {}"
  by (simp add: below_subdirs_def)

lemma below_subdirs_Cons_Dir:
  assumes "map_of rest n = None"
  shows "below_subdirs q0 ((n, Dir es') # rest)
           = {(q0 @ [n]) @ q | q. q \<noteq> [] \<and> nondir_at es' q} \<union> below_subdirs q0 rest"
proof (intro set_eqI iffI)
  fix p assume "p \<in> below_subdirs q0 ((n, Dir es') # rest)"
  then obtain m q es'' where p: "p = q0 @ m # q" "q \<noteq> []"
    "map_of ((n, Dir es') # rest) m = Some (Dir es'')" "nondir_at es'' q"
    by (auto simp: below_subdirs_def)
  show "p \<in> {(q0 @ [n]) @ q | q. q \<noteq> [] \<and> nondir_at es' q} \<union> below_subdirs q0 rest"
  proof (cases "m = n")
    case True
    with p show ?thesis by auto
  next
    case False
    with p have "p \<in> below_subdirs q0 rest" by (auto simp: below_subdirs_def)
    then show ?thesis by simp
  qed
next
  fix p assume "p \<in> {(q0 @ [n]) @ q | q. q \<noteq> [] \<and> nondir_at es' q} \<union> below_subdirs q0 rest"
  then show "p \<in> below_subdirs q0 ((n, Dir es') # rest)"
  proof
    assume "p \<in> {(q0 @ [n]) @ q | q. q \<noteq> [] \<and> nondir_at es' q}"
    then obtain q where "p = q0 @ n # q" "q \<noteq> []" "nondir_at es' q" by auto
    then show ?thesis unfolding below_subdirs_def by fastforce
  next
    assume "p \<in> below_subdirs q0 rest"
    then obtain m q es'' where p: "p = q0 @ m # q" "q \<noteq> []"
      "map_of rest m = Some (Dir es'')" "nondir_at es'' q"
      by (auto simp: below_subdirs_def)
    with assms have "m \<noteq> n" by auto
    with p have "map_of ((n, Dir es') # rest) m = Some (Dir es'')" by simp
    with p show ?thesis unfolding below_subdirs_def by blast
  qed
qed

lemma below_subdirs_Cons_other:
  assumes "map_of rest n = None" "\<not> is_Dir x"
  shows "below_subdirs q0 ((n, x) # rest) = below_subdirs q0 rest"
proof (intro set_eqI iffI)
  fix p assume "p \<in> below_subdirs q0 ((n, x) # rest)"
  then obtain m q es'' where p: "p = q0 @ m # q" "q \<noteq> []"
    "map_of ((n, x) # rest) m = Some (Dir es'')" "nondir_at es'' q"
    by (auto simp: below_subdirs_def)
  with assms(2) have "m \<noteq> n" by (cases "m = n") auto
  with p show "p \<in> below_subdirs q0 rest" by (auto simp: below_subdirs_def)
next
  fix p assume "p \<in> below_subdirs q0 rest"
  then obtain m q es'' where p: "p = q0 @ m # q" "q \<noteq> []"
    "map_of rest m = Some (Dir es'')" "nondir_at es'' q"
    by (auto simp: below_subdirs_def)
  with assms have "m \<noteq> n" by auto
  with p have "map_of ((n, x) # rest) m = Some (Dir es'')" by simp
  with p show "p \<in> below_subdirs q0 ((n, x) # rest)" unfolding below_subdirs_def by blast
qed

lemma walk_collect_aux:
  "dp = d @ q0 \<Longrightarrow> wf_fs es \<Longrightarrow>
     set (collect d (walk dp es)) = {q0 @ q | q. q \<noteq> [] \<and> nondir_at es q}"
  and walk_subdirs_collect_aux:
  "dp = d @ q0 \<Longrightarrow> wf_fs es \<Longrightarrow>
     set (collect d (walk_subdirs dp es)) = below_subdirs q0 es"
proof (induction dp es and dp es arbitrary: q0 and q0 rule: walk_walk_subdirs.induct)
  case (1 dp es)
  have rel: "os_path_relpath (os_path_join dp [n]) d = q0 @ [n]" for n
    using relpath_below [of "q0 @ [n]" d] "1.prems"(1) by (simp add: os_path_join_def)
  have files: "set (map (\<lambda>file. os_path_relpath (os_path_join dp [file]) d)
                  (map fst (filter (\<lambda>e. \<not> is_Dir (snd e)) es)))
        = {q0 @ [n] | n. \<exists>x. map_of es n = Some x \<and> \<not> is_Dir x}"
    using wf_fs_distinct [OF "1.prems"(2)]
    by (auto simp: rel image_iff)
  have split: "{q0 @ q | q. q \<noteq> [] \<and> nondir_at es q}
      = {q0 @ [n] | n. \<exists>x. map_of es n = Some x \<and> \<not> is_Dir x} \<union> below_subdirs q0 es"
    (is "?A = ?B \<union> ?C")
  proof (intro set_eqI iffI)
    fix p assume "p \<in> ?A"
    then obtain q where p: "p = q0 @ q" "q \<noteq> []" "nondir_at es q" by blast
    then obtain n r where q: "q = n # r" by (cases q) auto
    with p show "p \<in> ?B \<union> ?C"
      by (auto simp: nondir_at_Cons below_subdirs_def split: option.splits node.splits)
  next
    fix p assume "p \<in> ?B \<union> ?C"
    then show "p \<in> ?A"
    proof
      assume "p \<in> ?B"
      then obtain n x where "p = q0 @ [n]" "map_of es n = Some x" "\<not> is_Dir x" by blast
      then have "nondir_at es [n]" by (cases x) (simp_all add: nondir_at_Cons)
      with \<open>p = q0 @ [n]\<close> show ?thesis by blast
    next
      assume "p \<in> ?C"
      then obtain n q es' where "p = q0 @ n # q" "q \<noteq> []" "map_of es n = Some (Dir es')"
        "nondir_at es' q" by (auto simp: below_subdirs_def)
      then have "nondir_at es (n # q)" by (simp add: nondir_at_Cons)
      with \<open>p = q0 @ n # q\<close> show ?thesis by blast
    qed
  qed
  show ?case
    using "1.IH" [OF "1.prems"] files split by simp
next
  case (2 dp)
  then show ?case by (simp add: below_subdirs_Nil)
next
  case (3 dp n es' rest)
  from "3.prems" have wf: "wf_fs es'" "wf_fs rest" and fresh: "n \<notin> set (map fst rest)" by simp_all
  have a: "set (collect d (walk (dp @ [n]) es')) = {(q0 @ [n]) @ q | q. q \<noteq> [] \<and> nondir_at es' q}"
    using "3.IH"(1) [of "q0 @ [n]"] wf(1) "3.prems"(1) by simp
  have b: "set (collect d (walk_subdirs dp rest)) = below_subdirs q0 rest"
    using "3.IH"(2) [OF "3.prems"(1) wf(2)] .
  have none: "map_of rest n = None" using fresh by (simp add: map_of_eq_None_iff)
  have "set (collect d (walk_subdirs dp ((n, Dir es') # rest)))
      = set (collect d (walk (dp @ [n]) es')) \<union> set (collect d (walk_subdirs dp rest))"
    by (simp add: collect_append del: walk.simps)
  also have "\<dots> = below_subdirs q0 ((n, Dir es') # rest)"
    by (simp only: a b below_subdirs_Cons_Dir [OF none])
  finally show ?case .
qed (simp_all add: below_subdirs_Cons_other map_of_eq_None_iff del: walk.simps)

subsection \<open>UTF-8\<close>

lemma split2:
  fixes k j :: nat
  assumes "j < 64"
  shows "(k * 64 + j) div 64 = k" "(k * 64 + j) mod 64 = j"
  using assms by simp_all

lemma split3:
  fixes a b c :: nat
  assumes "b < 64" "c < 64"
  shows "(a * 4096 + b * 64 + c) div 4096 = a"
    "(a * 4096 + b * 64 + c) div 64 mod 64 = b"
    "(a * 4096 + b * 64 + c) mod 64 = c"
proof -
  let ?n = "a * 4096 + b * 64 + c"
  have e: "?n = (a * 64 + b) * 64 + c" by simp
  have d: "?n div 64 = a * 64 + b"
    by (subst e) (rule split2(1) [OF assms(2)])
  show "?n mod 64 = c"
    by (subst e) (rule split2(2) [OF assms(2)])
  have "?n div 64 mod 64 = (a * 64 + b) mod 64" by (simp only: d)
  also have "\<dots> = b" by (rule split2(2) [OF assms(1)])
  finally show "?n div 64 mod 64 = b" .
  have "?n div 4096 = ?n div (64 * 64)" by simp
  also have "\<dots> = ?n div 64 div 64" by (simp only: div_mult2_eq)
  also have "\<dots> = (a * 64 + b) div 64" by (simp only: d)
  also have "\<dots> = a" by (rule split2(1) [OF assms(1)])
  finally show "?n div 4096 = a" .
qed

lemma split4:
  fixes a b c d :: nat
  assumes "b < 64" "c < 64" "d < 64"
  shows "(a * 262144 + b * 4096 + c * 64 + d) div 262144 = a"
    "(a * 262144 + b * 4096 + c * 64 + d) div 4096 mod 64 = b"
    "(a * 262144 + b * 4096 + c * 64 + d) div 64 mod 64 = c"
    "(a * 262144 + b * 4096 + c * 64 + d) mod 64 = d"
proof -
  let ?n = "a * 262144 + b * 4096 + c * 64 + d"
  have e: "?n = (a * 64 + b) * 4096 + c * 64 + d" by simp
  have 1: "?n div 4096 = a * 64 + b"
    by (subst e) (rule split3(1) [OF assms(2,3)])
  show "?n div 64 mod 64 = c"
    by (subst e) (rule split3(2) [OF assms(2,3)])
  show "?n mod 64 = d"
    by (subst e) (rule split3(3) [OF assms(2,3)])
  have "?n div 4096 mod 64 = (a * 64 + b) mod 64" by (simp only: 1)
  also have "\<dots> = b" by (rule split2(2) [OF assms(1)])
  finally show "?n div 4096 mod 64 = b" .
  have "?n div 262144 = ?n div (4096 * 64)" by simp
  also have "\<dots> = ?n div 4096 div 64" by (simp only: div_mult2_eq)
  also have "\<dots> = (a * 64 + b) div 64" by (simp only: 1)
  also have "\<dots> = a" by (rule split2(1) [OF assms(1)])
  finally show "?n div 262144 = a" .
qed

lemma byte_le: "(a::byte) \<le> b \<longleftrightarrow> unat a \<le> unat b"
  by (rule word_le_nat_alt)

lemma byte_of_unat: "n = unat b \<Longrightarrow> of_nat n = (b :: byte)"
  by simp

lemma continuation_unat: "continuation b \<longleftrightarrow> 128 \<le> unat b \<and> unat b \<le> 191"
  by (simp add: continuation_def byte_le)

lemma one_byte_sound:
  assumes "b0 \<le> 0x7F"
  shows "scalar_value (unat b0) \<and> b0 # r = utf8_encode (unat b0) @ r"
proof -
  from assms have "unat b0 < 128" by (simp add: byte_le)
  then show ?thesis by (simp add: scalar_value_def utf8_encode_def)
qed

lemma two_byte_sound:
  assumes "0xC2 \<le> b0" "b0 \<le> 0xDF" "continuation b1"
    and cp: "cp = (unat b0 - 0xC0) * 64 + (unat b1 - 0x80)"
  shows "scalar_value cp \<and> b0 # b1 # r = utf8_encode cp @ r"
proof -
  define k where "k = unat b0 - 192"
  define j where "j = unat b1 - 128"
  from assms(1,2) have b0: "unat b0 = 192 + k" and k: "2 \<le> k" "k < 32"
    by (simp_all add: byte_le k_def)
  from assms(3) have b1: "unat b1 = 128 + j" and j: "j < 64"
    by (auto simp: continuation_unat j_def)
  have c: "cp = k * 64 + j" by (simp add: cp k_def j_def)
  have r: "128 \<le> cp" "cp < 2048" using k j by (simp_all add: c)
  have d: "cp div 64 = k" "cp mod 64 = j"
    unfolding c by (rule split2 [OF j])+
  have "of_nat (192 + cp div 64) = b0" "of_nat (128 + cp mod 64) = b1"
    by (rule byte_of_unat, simp only: d b0 b1)+
  then show ?thesis using r by (simp add: scalar_value_def utf8_encode_def)
qed


lemma byte_eq_unat: "(a::byte) = b \<longleftrightarrow> unat a = unat b"
  by (simp add: word_unat_eq_iff)

lemma second_of_3_unat:
  "second_of_3 b0 b1 \<longleftrightarrow>
     (if unat b0 = 224 then 160 \<le> unat b1 \<and> unat b1 \<le> 191
      else if unat b0 = 237 then 128 \<le> unat b1 \<and> unat b1 \<le> 159
      else 128 \<le> unat b1 \<and> unat b1 \<le> 191)"
  by (simp add: second_of_3_def continuation_unat byte_le byte_eq_unat)

lemma second_of_4_unat:
  "second_of_4 b0 b1 \<longleftrightarrow>
     (if unat b0 = 240 then 144 \<le> unat b1 \<and> unat b1 \<le> 191
      else if unat b0 = 244 then 128 \<le> unat b1 \<and> unat b1 \<le> 143
      else 128 \<le> unat b1 \<and> unat b1 \<le> 191)"
  by (simp add: second_of_4_def continuation_unat byte_le byte_eq_unat)

lemma three_byte_sound:
  assumes "0xE0 \<le> b0" "b0 \<le> 0xEF" "second_of_3 b0 b1" "continuation b2"
    and cp: "cp = (unat b0 - 0xE0) * 4096 + (unat b1 - 0x80) * 64 + (unat b2 - 0x80)"
  shows "scalar_value cp \<and> b0 # b1 # b2 # r = utf8_encode cp @ r"
proof -
  define a where "a = unat b0 - 224"
  define b where "b = unat b1 - 128"
  define c where "c = unat b2 - 128"
  from assms(1,2) have b0: "unat b0 = 224 + a" and a: "a < 16"
    by (simp_all add: byte_le a_def)
  from assms(3) have b1: "unat b1 = 128 + b" and b: "b < 64"
    by (auto simp: second_of_3_unat b_def split: if_splits)
  from assms(3) b0 b1 have ab: "a = 0 \<longrightarrow> 32 \<le> b" "a = 13 \<longrightarrow> b \<le> 31"
    by (auto simp: second_of_3_unat split: if_splits)
  from assms(4) have b2: "unat b2 = 128 + c" and c: "c < 64"
    by (auto simp: continuation_unat c_def)
  have e: "cp = a * 4096 + b * 64 + c" by (simp add: cp a_def b_def c_def)
  have r1: "2048 \<le> cp"
  proof (cases "a = 0")
    case True
    with ab have "32 \<le> b" by simp
    then show ?thesis unfolding e by simp
  next
    case False
    then have "1 \<le> a" by simp
    then show ?thesis unfolding e by simp
  qed
  have r2: "cp < 65536" using a b c unfolding e by simp
  consider "a \<le> 12" | "a = 13" | "14 \<le> a" by linarith
  then have r3: "cp < 55296 \<or> 57344 \<le> cp"
  proof cases
    case 1
    then show ?thesis using b c unfolding e by simp
  next
    case 2
    with ab have "b \<le> 31" by simp
    then show ?thesis using 2 c unfolding e by simp
  next
    case 3
    then show ?thesis unfolding e by simp
  qed
  note r = r1 r2 r3
  have d: "cp div 4096 = a" "cp div 64 mod 64 = b" "cp mod 64 = c"
    unfolding e by (rule split3 [OF b c])+
  have "of_nat (224 + cp div 4096) = b0" "of_nat (128 + cp div 64 mod 64) = b1"
    "of_nat (128 + cp mod 64) = b2"
    by (rule byte_of_unat, simp only: d b0 b1 b2)+
  then show ?thesis using r by (auto simp: scalar_value_def utf8_encode_def)
qed

lemma four_byte_sound:
  assumes "0xF0 \<le> b0" "b0 \<le> 0xF4" "second_of_4 b0 b1" "continuation b2" "continuation b3"
    and cp: "cp = (unat b0 - 0xF0) * 262144 + (unat b1 - 0x80) * 4096
                  + (unat b2 - 0x80) * 64 + (unat b3 - 0x80)"
  shows "scalar_value cp \<and> b0 # b1 # b2 # b3 # r = utf8_encode cp @ r"
proof -
  define a where "a = unat b0 - 240"
  define b where "b = unat b1 - 128"
  define c where "c = unat b2 - 128"
  define d where "d = unat b3 - 128"
  from assms(1,2) have b0: "unat b0 = 240 + a" and a: "a \<le> 4"
    by (simp_all add: byte_le a_def)
  from assms(3) have b1: "unat b1 = 128 + b" and b: "b < 64"
    by (auto simp: second_of_4_unat b_def split: if_splits)
  from assms(3) b0 b1 have ab: "a = 0 \<longrightarrow> 16 \<le> b" "a = 4 \<longrightarrow> b \<le> 15"
    by (auto simp: second_of_4_unat split: if_splits)
  from assms(4) have b2: "unat b2 = 128 + c" and c: "c < 64"
    by (auto simp: continuation_unat c_def)
  from assms(5) have b3: "unat b3 = 128 + d" and d: "d < 64"
    by (auto simp: continuation_unat d_def)
  have e: "cp = a * 262144 + b * 4096 + c * 64 + d" by (simp add: cp a_def b_def c_def d_def)
  have r1: "65536 \<le> cp"
  proof (cases "a = 0")
    case True
    with ab have "16 \<le> b" by simp
    then show ?thesis unfolding e by simp
  next
    case False
    then have "1 \<le> a" by simp
    then show ?thesis unfolding e by simp
  qed
  have r2: "cp < 1114112"
  proof (cases "a = 4")
    case True
    with ab have "b \<le> 15" by simp
    then show ?thesis using True c d unfolding e by simp
  next
    case False
    with a have "a \<le> 3" by simp
    then show ?thesis using b c d unfolding e by simp
  qed
  note r = r1 r2
  have q: "cp div 262144 = a" "cp div 4096 mod 64 = b" "cp div 64 mod 64 = c" "cp mod 64 = d"
    unfolding e by (rule split4 [OF b c d])+
  have "of_nat (240 + cp div 262144) = b0" "of_nat (128 + cp div 4096 mod 64) = b1"
    "of_nat (128 + cp div 64 mod 64) = b2" "of_nat (128 + cp mod 64) = b3"
    by (rule byte_of_unat, simp only: q b0 b1 b2 b3)+
  then show ?thesis using r by (auto simp: scalar_value_def utf8_encode_def)
qed

lemma step_sound:
  assumes "utf8_step bs = Some (cp, r)"
  shows "scalar_value cp \<and> bs = utf8_encode cp @ r"
proof (cases bs)
  case Nil
  with assms show ?thesis by simp
next
  case (Cons b0 bs')
  consider (one) "b0 \<le> 0x7F"
    | (two) "\<not> b0 \<le> 0x7F" "0xC2 \<le> b0 \<and> b0 \<le> 0xDF"
    | (three) "\<not> b0 \<le> 0x7F" "\<not> (0xC2 \<le> b0 \<and> b0 \<le> 0xDF)" "0xE0 \<le> b0 \<and> b0 \<le> 0xEF"
    | (four) "\<not> b0 \<le> 0x7F" "\<not> (0xC2 \<le> b0 \<and> b0 \<le> 0xDF)" "\<not> (0xE0 \<le> b0 \<and> b0 \<le> 0xEF)"
        "0xF0 \<le> b0 \<and> b0 \<le> 0xF4"
    | (bad) "\<not> b0 \<le> 0x7F" "\<not> (0xC2 \<le> b0 \<and> b0 \<le> 0xDF)" "\<not> (0xE0 \<le> b0 \<and> b0 \<le> 0xEF)"
        "\<not> (0xF0 \<le> b0 \<and> b0 \<le> 0xF4)"
    by blast
  then show ?thesis
  proof cases
    case one
    with assms Cons one_byte_sound [OF one, of r] show ?thesis by auto
  next
    case two
    with assms Cons obtain b1 where "bs' = b1 # r" "continuation b1"
      "cp = (unat b0 - 0xC0) * 64 + (unat b1 - 0x80)"
      by (auto split: list.splits if_splits)
    with two Cons two_byte_sound [of b0 b1 cp r] show ?thesis by simp
  next
    case three
    with assms Cons obtain b1 b2 where "bs' = b1 # b2 # r" "second_of_3 b0 b1" "continuation b2"
      "cp = (unat b0 - 0xE0) * 4096 + (unat b1 - 0x80) * 64 + (unat b2 - 0x80)"
      by (auto split: list.splits if_splits)
    with three Cons three_byte_sound [of b0 b1 b2 cp r] show ?thesis by simp
  next
    case four
    with assms Cons obtain b1 b2 b3 where "bs' = b1 # b2 # b3 # r" "second_of_4 b0 b1"
      "continuation b2" "continuation b3"
      "cp = (unat b0 - 0xF0) * 262144 + (unat b1 - 0x80) * 4096
                  + (unat b2 - 0x80) * 64 + (unat b3 - 0x80)"
      by (auto split: list.splits if_splits)
    with four Cons four_byte_sound [of b0 b1 b2 b3 cp r] show ?thesis by simp
  next
    case bad
    with assms Cons show ?thesis by simp
  qed
qed


lemma unat_byte: "n < 256 \<Longrightarrow> unat (of_nat n :: byte) = n"
  by (simp add: unat_of_nat)

lemma div_split_64:
  fixes n :: nat
  shows "n div 64 = n div 4096 * 64 + n div 64 mod 64"
proof -
  have "n div 4096 = n div (64 * 64)" by simp
  also have "\<dots> = n div 64 div 64" by (simp only: div_mult2_eq)
  finally show ?thesis using div_mult_mod_eq [of "n div 64" 64] by simp
qed

lemma div_split_4096:
  fixes n :: nat
  shows "n div 4096 = n div 262144 * 64 + n div 4096 mod 64"
proof -
  have "n div 262144 = n div (4096 * 64)" by simp
  also have "\<dots> = n div 4096 div 64" by (simp only: div_mult2_eq)
  finally show ?thesis using div_mult_mod_eq [of "n div 4096" 64] by simp
qed

lemma step_complete:
  assumes "scalar_value cp"
  shows "utf8_step (utf8_encode cp @ r) = Some (cp, r)"
proof -
  consider (one) "cp < 128" | (two) "128 \<le> cp" "cp < 2048"
    | (three) "2048 \<le> cp" "cp < 65536" | (four) "65536 \<le> cp"
    by linarith
  then show ?thesis
  proof cases
    case one
    then have "unat (of_nat cp :: byte) = cp" by (simp add: unat_byte)
    then show ?thesis using one by (simp add: utf8_encode_def byte_le)
  next
    case two
    define k where "k = cp div 64"
    define j where "j = cp mod 64"
    have j: "j < 64" by (simp add: j_def)
    have k: "2 \<le> k" "k < 32" using two by (simp_all add: k_def)
    have cp: "k * 64 + j = cp" by (simp add: k_def j_def)
    have u: "unat (of_nat (192 + k) :: byte) = 192 + k" "unat (of_nat (128 + j) :: byte) = 128 + j"
      by (rule unat_byte, use k j in simp)+
    have "utf8_encode cp = [of_nat (192 + k), of_nat (128 + j)]"
      using two by (simp add: utf8_encode_def k_def j_def)
    then show ?thesis using u k j cp
      by (simp add: byte_le continuation_unat)
  next
    case three
    define a where "a = cp div 4096"
    define b where "b = cp div 64 mod 64"
    define c where "c = cp mod 64"
    have b: "b < 64" and c: "c < 64" by (simp_all add: b_def c_def)
    have a: "a < 16" using three by (simp add: a_def)
    have "cp div 64 = a * 64 + b"
      unfolding a_def b_def by (rule div_split_64)
    then have cp: "a * 4096 + b * 64 + c = cp"
      using div_mult_mod_eq [of cp 64] by (simp add: c_def)
    from three(1) cp b c have a0: "a = 0 \<Longrightarrow> 32 \<le> b" by simp
    from assms three(2) have "cp < 55296 \<or> 57344 \<le> cp" by (simp add: scalar_value_def)
    with cp b c have a13: "a = 13 \<Longrightarrow> b \<le> 31" by auto
    have u: "unat (of_nat (224 + a) :: byte) = 224 + a" "unat (of_nat (128 + b) :: byte) = 128 + b"
      "unat (of_nat (128 + c) :: byte) = 128 + c"
      by (rule unat_byte, use a b c in simp)+
    have "utf8_encode cp = [of_nat (224 + a), of_nat (128 + b), of_nat (128 + c)]"
      using three by (simp add: utf8_encode_def a_def b_def c_def)
    then show ?thesis using u a b c cp a0 a13
      by (simp add: byte_le continuation_unat second_of_3_unat)
  next
    case four
    from assms four have lt: "cp < 1114112" by (simp add: scalar_value_def)
    define a where "a = cp div 262144"
    define b where "b = cp div 4096 mod 64"
    define c where "c = cp div 64 mod 64"
    define d where "d = cp mod 64"
    have b: "b < 64" and c: "c < 64" and d: "d < 64" by (simp_all add: b_def c_def d_def)
    have a: "a \<le> 4" using lt by (simp add: a_def)
    have 1: "cp div 4096 = a * 64 + b"
      unfolding a_def b_def by (rule div_split_4096)
    have 2: "cp div 64 = cp div 4096 * 64 + c"
      unfolding c_def by (rule div_split_64)
    have cp: "a * 262144 + b * 4096 + c * 64 + d = cp"
      using div_mult_mod_eq [of cp 64] 1 2 by (simp add: d_def)
    from four cp b c d have a0: "a = 0 \<Longrightarrow> 16 \<le> b" by simp
    from lt cp b c d have a4: "a = 4 \<Longrightarrow> b \<le> 15" by simp
    have u: "unat (of_nat (240 + a) :: byte) = 240 + a" "unat (of_nat (128 + b) :: byte) = 128 + b"
      "unat (of_nat (128 + c) :: byte) = 128 + c" "unat (of_nat (128 + d) :: byte) = 128 + d"
      by (rule unat_byte, use a b c d in simp)+
    have "utf8_encode cp = [of_nat (240 + a), of_nat (128 + b), of_nat (128 + c), of_nat (128 + d)]"
      using four by (simp add: utf8_encode_def a_def b_def c_def d_def)
    then show ?thesis using u a b c d cp a0 a4
      by (simp add: byte_le continuation_unat second_of_4_unat)
  qed
qed


lemma utf8_encode_nonempty: "utf8_encode cp \<noteq> []"
  by (simp add: utf8_encode_def)

lemma utf8_decode_Nil: "utf8_decode [] = Inr []"
  by (simp add: utf8_decode.simps)

lemma utf8_decode_sound:
  "utf8_decode bs = Inr cps \<Longrightarrow> list_all scalar_value cps \<and> concat (map utf8_encode cps) = bs"
proof (induction bs arbitrary: cps rule: utf8_decode.induct)
  case (1 bs)
  show ?case
  proof (cases "bs = []")
    case True
    with "1.prems" show ?thesis by (simp add: utf8_decode_Nil)
  next
    case False
    with "1.prems" obtain cp r cps' where
      st: "utf8_step bs = Some (cp, r)" and d: "utf8_decode r = Inr cps'" and c: "cps = cp # cps'"
      by (subst (asm) utf8_decode.simps) (auto split: option.splits sum.splits)
    from "1.IH" [OF False st refl d] step_sound [OF st] c show ?thesis by simp
  qed
qed

lemma utf8_decode_complete:
  "list_all scalar_value cps \<Longrightarrow> utf8_decode (concat (map utf8_encode cps)) = Inr cps"
proof (induction cps)
  case Nil
  then show ?case by (simp add: utf8_decode_Nil)
next
  case (Cons cp cps)
  then have "utf8_step (utf8_encode cp @ concat (map utf8_encode cps)) = Some (cp, concat (map utf8_encode cps))"
    by (simp add: step_complete)
  moreover have "utf8_decode (concat (map utf8_encode cps)) = Inr cps"
    using Cons by simp
  ultimately show ?case
    by (subst utf8_decode.simps) (simp add: utf8_encode_nonempty)
qed

lemma utf8_decode_error: "utf8_decode bs = Inl e \<Longrightarrow> e = UnicodeDecodeError"
proof (induction bs rule: utf8_decode.induct)
  case (1 bs)
  show ?case
  proof (cases "bs = []")
    case True
    with "1.prems" show ?thesis by (simp add: utf8_decode_Nil)
  next
    case False
    with "1.prems" "1.IH" show ?thesis
      by (subst (asm) utf8_decode.simps) (auto split: option.splits sum.splits)
  qed
qed

lemma well_formed_utf8_iff: "well_formed_utf8 bs \<longleftrightarrow> (\<exists>cps. utf8_decode bs = Inr cps)"
  unfolding well_formed_utf8_def
  using utf8_decode_sound utf8_decode_complete by blast

subsection \<open>Calendar\<close>

lemma div32_bounds:
  fixes x :: int
  shows "32 * (x div 32) \<le> x" "x < 32 * (x div 32) + 32"
proof -
  have "32 * (x div 32) + x mod 32 = x" by (rule mult_div_mod_eq)
  moreover have "0 \<le> x mod 32" "x mod 32 < 32" by simp_all
  ultimately show "32 * (x div 32) \<le> x" "x < 32 * (x div 32) + 32" by linarith+
qed

lemma month_day_correct:
  assumes r: "0 \<le> r" "r < 365" and md: "month_day leap r = (m, d)"
  shows "1 \<le> m \<and> m \<le> 12 \<and> 1 \<le> d
         \<and> d \<le> (if m = 2 \<and> leap then 29 else DAYS_IN_MONTH ! nat m)
         \<and> DAYS_BEFORE_MONTH ! nat m + (if m > 2 \<and> leap then 1 else 0) + d = r + 1"
proof -
  define k where "k = (r + 50) div 32"
  have kb: "32 * k \<le> r + 50" "r + 50 < 32 * k + 32"
    unfolding k_def by (rule div32_bounds)+
  with r have "1 \<le> k" "k \<le> 12" by linarith+
  then consider "k = 1" | "k = 2" | "k = 3" | "k = 4" | "k = 5" | "k = 6"
    | "k = 7" | "k = 8" | "k = 9" | "k = 10" | "k = 11" | "k = 12"
    by atomize_elim arith
  then show ?thesis
  proof cases
    case 1
    with md kb r show ?thesis
      by (auto simp: month_day_def k_def [symmetric] DAYS_BEFORE_MONTH_def DAYS_IN_MONTH_def
          split: if_splits)
  next
    case 2
    with md kb r show ?thesis
      by (auto simp: month_day_def k_def [symmetric] DAYS_BEFORE_MONTH_def DAYS_IN_MONTH_def
          split: if_splits)
  next
    case 3
    with md kb r show ?thesis
      by (auto simp: month_day_def k_def [symmetric] DAYS_BEFORE_MONTH_def DAYS_IN_MONTH_def
          split: if_splits)
  next
    case 4
    with md kb r show ?thesis
      by (auto simp: month_day_def k_def [symmetric] DAYS_BEFORE_MONTH_def DAYS_IN_MONTH_def
          split: if_splits)
  next
    case 5
    with md kb r show ?thesis
      by (auto simp: month_day_def k_def [symmetric] DAYS_BEFORE_MONTH_def DAYS_IN_MONTH_def
          split: if_splits)
  next
    case 6
    with md kb r show ?thesis
      by (auto simp: month_day_def k_def [symmetric] DAYS_BEFORE_MONTH_def DAYS_IN_MONTH_def
          split: if_splits)
  next
    case 7
    with md kb r show ?thesis
      by (auto simp: month_day_def k_def [symmetric] DAYS_BEFORE_MONTH_def DAYS_IN_MONTH_def
          split: if_splits)
  next
    case 8
    with md kb r show ?thesis
      by (auto simp: month_day_def k_def [symmetric] DAYS_BEFORE_MONTH_def DAYS_IN_MONTH_def
          split: if_splits)
  next
    case 9
    with md kb r show ?thesis
      by (auto simp: month_day_def k_def [symmetric] DAYS_BEFORE_MONTH_def DAYS_IN_MONTH_def
          split: if_splits)
  next
    case 10
    with md kb r show ?thesis
      by (auto simp: month_day_def k_def [symmetric] DAYS_BEFORE_MONTH_def DAYS_IN_MONTH_def
          split: if_splits)
  next
    case 11
    with md kb r show ?thesis
      by (auto simp: month_day_def k_def [symmetric] DAYS_BEFORE_MONTH_def DAYS_IN_MONTH_def
          split: if_splits)
  next
    case 12
    with md kb r show ?thesis
      by (auto simp: month_day_def k_def [symmetric] DAYS_BEFORE_MONTH_def DAYS_IN_MONTH_def
          split: if_splits)
  qed
qed

lemma days_before_year_decomp:
  assumes "0 \<le> b" "b \<le> 3" "0 \<le> c" "c \<le> 24" "0 \<le> e" "e \<le> 3"
  shows "days_before_year (400 * a + 100 * b + 4 * c + e + 1)
           = 146097 * a + 36524 * b + 1461 * c + 365 * e"
proof -
  let ?z = "400 * a + 100 * b + 4 * c + e"
  have d4: "?z div 4 = 100 * a + 25 * b + c"
    by (rule int_div_pos_eq [where r = e]) (use assms in simp_all)
  have d100: "?z div 100 = 4 * a + b"
    by (rule int_div_pos_eq [where r = "4 * c + e"]) (use assms in simp_all)
  have d400: "?z div 400 = a"
    by (rule int_div_pos_eq [where r = "100 * b + 4 * c + e"]) (use assms in simp_all)
  show ?thesis
    by (simp add: days_before_year_def Let_def d4 d100 d400)
qed

lemma mod_succ:
  fixes q r k :: int
  assumes "0 \<le> r" "r < k"
  shows "(k * q + (r + 1)) mod k = (if r + 1 = k then 0 else r + 1)"
proof (cases "r + 1 = k")
  case True
  then have "k * q + (r + 1) = k * (q + 1) + 0" by (simp add: algebra_simps)
  then have "(k * q + (r + 1)) mod k = 0"
    using assms by (intro int_mod_pos_eq [where q = "q + 1"]) simp_all
  with True show ?thesis by simp
next
  case False
  with assms have "(k * q + (r + 1)) mod k = r + 1"
    by (intro int_mod_pos_eq [where q = q]) simp_all
  with False show ?thesis by simp
qed

lemma is_leap_decomp:
  assumes "0 \<le> b" "b \<le> 3" "0 \<le> c" "c \<le> 24" "0 \<le> e" "e \<le> 3"
  shows "is_leap (400 * a + 100 * b + 4 * c + e + 1) \<longleftrightarrow> e = 3 \<and> (c \<noteq> 24 \<or> b = 3)"
proof -
  let ?y = "400 * a + 100 * b + 4 * c + e + 1"
  have e4: "?y = 4 * (100 * a + 25 * b + c) + (e + 1)" by simp
  have m4: "?y mod 4 = (if e + 1 = 4 then 0 else e + 1)"
    by (subst e4) (rule mod_succ, use assms in simp_all)
  have e100: "?y = 100 * (4 * a + b) + ((4 * c + e) + 1)" by simp
  have m100: "?y mod 100 = (if (4 * c + e) + 1 = 100 then 0 else (4 * c + e) + 1)"
    by (subst e100) (rule mod_succ, use assms in simp_all)
  have e400: "?y = 400 * a + ((100 * b + 4 * c + e) + 1)" by simp
  have m400: "?y mod 400 = (if (100 * b + 4 * c + e) + 1 = 400 then 0 else (100 * b + 4 * c + e) + 1)"
    by (subst e400) (rule mod_succ, use assms in simp_all)
  show ?thesis
    unfolding is_leap_def m4 m100 m400 using assms by auto
qed

lemma ord2ymd_parts_eq:
  "ord2ymd n =
     ord2ymd_parts ((n - 1) div 146097) ((n - 1) mod 146097 div 36524)
       ((n - 1) mod 146097 mod 36524 div 1461)
       ((n - 1) mod 146097 mod 36524 mod 1461 div 365)
       ((n - 1) mod 146097 mod 36524 mod 1461 mod 365)"
  by (simp only: ord2ymd_def ord2ymd_parts_def Let_def)

lemma ord2ymd_parts_unfold:
  "ord2ymd_parts a b c e r4 =
     (if e = 4 \<or> b = 4 then (a * 400 + 1 + b * 100 + c * 4 + e - 1, 12, 31)
      else (case month_day (e = 3 \<and> (c \<noteq> 24 \<or> b = 3)) r4 of
              (m, d) \<Rightarrow> (a * 400 + 1 + b * 100 + c * 4 + e, m, d)))"
  by (simp add: ord2ymd_parts_def month_day_def Let_def)

lemma ord2ymd_correct:
  assumes "ord2ymd n = (y, m, d)"
  shows "1 \<le> m \<and> m \<le> 12 \<and> 1 \<le> d \<and> d \<le> days_in_month y m \<and> ymd2ord y m d = n
         \<and> ((1 \<le> y \<and> y \<le> 9999) \<longleftrightarrow> (1 \<le> n \<and> n \<le> 3652059))"
proof -
  define n0 where "n0 = n - 1"
  define a where "a = n0 div 146097"
  define r1 where "r1 = n0 mod 146097"
  define b where "b = r1 div 36524"
  define r2 where "r2 = r1 mod 36524"
  define c where "c = r2 div 1461"
  define r3 where "r3 = r2 mod 1461"
  define e where "e = r3 div 365"
  define r4 where "r4 = r3 mod 365"
  have n0: "n0 = 146097 * a + r1" and r1b: "0 \<le> r1" "r1 < 146097"
    unfolding a_def r1_def by simp_all
  have r1: "r1 = 36524 * b + r2" and r2b: "0 \<le> r2" "r2 < 36524"
    unfolding b_def r2_def by simp_all
  have r2: "r2 = 1461 * c + r3" and r3b: "0 \<le> r3" "r3 < 1461"
    unfolding c_def r3_def by simp_all
  have r3: "r3 = 365 * e + r4" and r4b: "0 \<le> r4" "r4 < 365"
    unfolding e_def r4_def by simp_all
  have bb: "0 \<le> b" "b \<le> 4" using r1 r1b r2b by linarith+
  have cb: "0 \<le> c" "c \<le> 24" using r2 r2b r3b by linarith+
  have eb: "0 \<le> e" "e \<le> 4" using r3 r3b r4b by linarith+
  have n: "n = 146097 * a + 36524 * b + 1461 * c + 365 * e + r4 + 1"
    using n0 r1 r2 r3 by (simp add: n0_def)
  have u: "(y, m, d) =
     (if e = 4 \<or> b = 4 then (a * 400 + 1 + b * 100 + c * 4 + e - 1, 12, 31)
      else (case month_day (e = 3 \<and> (c \<noteq> 24 \<or> b = 3)) r4 of
              (m, d) \<Rightarrow> (a * 400 + 1 + b * 100 + c * 4 + e, m, d)))"
  proof -
    have "ord2ymd n = ord2ymd_parts a b c e r4"
      unfolding a_def b_def c_def e_def r4_def r3_def r2_def r1_def n0_def
      by (rule ord2ymd_parts_eq)
    with assms show ?thesis by (simp only: ord2ymd_parts_unfold)
  qed
  consider (century) "b = 4" | (cycle) "b \<le> 3" "e = 4" | (normal) "b \<le> 3" "e \<le> 3"
    using bb eb by linarith
  then show ?thesis
  proof cases
    case century
    with r1 r1b r2b have "r2 = 0" by linarith
    with r2 r3 cb eb r3b r4b have z: "c = 0" "e = 0" "r4 = 0" by linarith+
    from u century z have y: "y = 400 * a + 100 * 3 + 4 * 24 + 3 + 1" and md: "m = 12" "d = 31"
      by simp_all
    have dby: "days_before_year y = 146097 * a + 36524 * 3 + 1461 * 24 + 365 * 3"
      unfolding y by (rule days_before_year_decomp) simp_all
    have leap: "is_leap y"
      unfolding y by (subst is_leap_decomp) simp_all
    have "ymd2ord y m d = n"
      using dby leap n century z
      by (simp add: ymd2ord_def days_before_month_def md DAYS_BEFORE_MONTH_def)
    moreover have "d \<le> days_in_month y m"
      by (simp add: days_in_month_def md DAYS_IN_MONTH_def)
    moreover have "(1 \<le> y \<and> y \<le> 9999) \<longleftrightarrow> (1 \<le> n \<and> n \<le> 3652059)"
      using n century z unfolding y by auto
    ultimately show ?thesis by (simp add: md)
  next
    case cycle
    with r3 r3b r4b have r40: "r4 = 0" by linarith
    from cycle r2 r2b r3 r4b r40 have c23: "c \<le> 23" by linarith
    from u cycle have y: "y = 400 * a + 100 * b + 4 * c + 3 + 1" and md: "m = 12" "d = 31"
      by simp_all
    have dby: "days_before_year y = 146097 * a + 36524 * b + 1461 * c + 365 * 3"
      unfolding y by (rule days_before_year_decomp) (use bb cb cycle in simp_all)
    have leap: "is_leap y"
      unfolding y by (subst is_leap_decomp) (use bb cb cycle c23 in simp_all)
    have "ymd2ord y m d = n"
      using dby leap n cycle r40
      by (simp add: ymd2ord_def days_before_month_def md DAYS_BEFORE_MONTH_def)
    moreover have "d \<le> days_in_month y m"
      by (simp add: days_in_month_def md DAYS_IN_MONTH_def)
    moreover have "(1 \<le> y \<and> y \<le> 9999) \<longleftrightarrow> (1 \<le> n \<and> n \<le> 3652059)"
    proof -
      have "1 \<le> y \<longleftrightarrow> 0 \<le> a" unfolding y using bb cb c23 cycle by linarith
      moreover have "1 \<le> n \<longleftrightarrow> 0 \<le> a" unfolding n using bb cb c23 cycle r40 by linarith
      moreover have "y \<le> 9999 \<longleftrightarrow> a \<le> 24" unfolding y using bb cb c23 cycle by linarith
      moreover have "n \<le> 3652059 \<longleftrightarrow> a \<le> 24" unfolding n using bb cb c23 cycle r40 by linarith
      ultimately show ?thesis by simp
    qed
    ultimately show ?thesis by (simp add: md)
  next
    case normal
    define leap where "leap = (e = 3 \<and> (c \<noteq> 24 \<or> b = 3))"
    from u normal have y: "y = 400 * a + 100 * b + 4 * c + e + 1"
      and md: "month_day leap r4 = (m, d)"
      by (auto simp: leap_def split: prod.splits)
    have dby: "days_before_year y = 146097 * a + 36524 * b + 1461 * c + 365 * e"
      unfolding y by (rule days_before_year_decomp) (use bb cb eb normal in simp_all)
    have lp: "is_leap y = leap"
      unfolding y leap_def by (rule is_leap_decomp) (use bb cb eb normal in simp_all)
    from month_day_correct [OF r4b md]
    have v: "1 \<le> m" "m \<le> 12" "1 \<le> d"
      "d \<le> (if m = 2 \<and> leap then 29 else DAYS_IN_MONTH ! nat m)"
      "DAYS_BEFORE_MONTH ! nat m + (if m > 2 \<and> leap then 1 else 0) + d = r4 + 1"
      by simp_all
    have "ymd2ord y m d = n"
      using dby v(5) n by (simp add: ymd2ord_def days_before_month_def lp)
    moreover have "d \<le> days_in_month y m"
      using v(4) by (simp add: days_in_month_def lp)
    moreover have "(1 \<le> y \<and> y \<le> 9999) \<longleftrightarrow> (1 \<le> n \<and> n \<le> 3652059)"
    proof -
      have "1 \<le> y \<longleftrightarrow> 0 \<le> a" unfolding y using bb cb eb normal by linarith
      moreover have "1 \<le> n \<longleftrightarrow> 0 \<le> a" unfolding n using bb cb eb normal r4b by linarith
      moreover have "y \<le> 9999 \<longleftrightarrow> n \<le> 3652059"
      proof (cases "a \<le> 23")
        case True
        then have "y \<le> 9999" unfolding y using bb cb eb normal by linarith
        moreover have "n \<le> 3652059" unfolding n using True bb cb eb normal r4b by linarith
        ultimately show ?thesis by simp
      next
        case False
        show ?thesis
        proof (cases "a = 24")
          case a24: True
          consider "b \<le> 2" | "b = 3" "c \<le> 23" | "b = 3" "c = 24" "e \<le> 2" | "b = 3" "c = 24" "e = 3"
            using normal cb eb by linarith
          then show ?thesis
          proof cases
            case 1
            then have "y \<le> 9999" unfolding y using a24 cb eb normal by linarith
            moreover have "n \<le> 3652059" unfolding n using 1 a24 cb eb normal r4b by linarith
            ultimately show ?thesis by simp
          next
            case 2
            then have "y \<le> 9999" unfolding y using a24 eb normal by linarith
            moreover have "n \<le> 3652059" unfolding n using 2 a24 eb normal r4b by linarith
            ultimately show ?thesis by simp
          next
            case 3
            then have "y \<le> 9999" unfolding y using a24 by linarith
            moreover have "n \<le> 3652059" unfolding n using 3 a24 r4b by linarith
            ultimately show ?thesis by simp
          next
            case 4
            then have "\<not> y \<le> 9999" unfolding y using a24 by linarith
            moreover have "\<not> n \<le> 3652059" unfolding n using 4 a24 r4b by linarith
            ultimately show ?thesis by simp
          qed
        next
          case a25: False
          with False have "25 \<le> a" by linarith
          then have "\<not> y \<le> 9999" unfolding y using bb cb eb by linarith
          moreover have "\<not> n \<le> 3652059" unfolding n using \<open>25 \<le> a\<close> bb cb eb r4b by linarith
          ultimately show ?thesis by simp
        qed
      qed
      ultimately show ?thesis by simp
    qed
    ultimately show ?thesis using v by simp
  qed
qed

lemma ymd2ord_epoch: "ymd2ord 1970 1 1 = 719163"
  by (simp add: ymd2ord_def days_before_year_def days_before_month_def DAYS_BEFORE_MONTH_def
      is_leap_def Let_def)

lemma clock_split:
  fixes secs :: int
  assumes "0 \<le> secs" "secs < 86400"
  shows "0 \<le> secs div 3600" "secs div 3600 < 24"
    "0 \<le> secs mod 3600 div 60" "secs mod 3600 div 60 < 60"
    "0 \<le> secs mod 60" "secs mod 60 < 60"
    "secs div 3600 * 3600 + secs mod 3600 div 60 * 60 + secs mod 60 = secs"
proof -
  define h where "h = secs div 3600"
  define r where "r = secs mod 3600"
  define mi where "mi = r div 60"
  define s where "s = r mod 60"
  have 1: "secs = 3600 * h + r" and rb: "0 \<le> r" "r < 3600"
    unfolding h_def r_def by simp_all
  have 2: "r = 60 * mi + s" and sb: "0 \<le> s" "s < 60"
    unfolding mi_def s_def by simp_all
  have s60: "secs mod 60 = s"
    by (rule int_mod_pos_eq [where q = "60 * h + mi"]) (use 1 2 sb in simp_all)
  have hb: "0 \<le> h" "h < 24" using 1 rb assms by linarith+
  have mb: "0 \<le> mi" "mi < 60" using 2 rb sb by linarith+
  show "0 \<le> secs div 3600" "secs div 3600 < 24" using hb by (simp_all only: h_def)
  show "0 \<le> secs mod 3600 div 60" "secs mod 3600 div 60 < 60"
    using mb by (simp_all only: mi_def r_def)
  show "0 \<le> secs mod 60" "secs mod 60 < 60" using sb by (simp_all only: s60)
  have "h * 3600 + mi * 60 + s = secs" using 1 2 by simp
  then show "secs div 3600 * 3600 + secs mod 3600 div 60 * 60 + secs mod 60 = secs"
    by (simp only: h_def mi_def r_def s60 [symmetric])
qed

lemma gmtime_correct:
  "epoch_seconds (gmtime t) = t
   \<and> (valid_datetime (gmtime t) \<longleftrightarrow> - 62135596800 \<le> t \<and> t \<le> 253402300799)
   \<and> ((1 \<le> year (gmtime t) \<and> year (gmtime t) \<le> 9999)
        \<longleftrightarrow> - 62135596800 \<le> t \<and> t \<le> 253402300799)"
proof -
  define days where "days = t div 86400"
  define secs where "secs = t mod 86400"
  have t: "t = 86400 * days + secs" and sb: "0 \<le> secs" "secs < 86400"
    unfolding days_def secs_def by simp_all
  obtain y m d where o: "ord2ymd (days + 719163) = (y, m, d)"
    by (cases "ord2ymd (days + 719163)") auto
  have g: "gmtime t = \<lparr>year = y, month = m, day = d,
          hour = secs div 3600, minute = secs mod 3600 div 60, second = secs mod 60\<rparr>"
    using o by (simp only: gmtime_def Let_def days_def [symmetric] secs_def [symmetric] prod.case)
  from ord2ymd_correct [OF o]
  have v: "1 \<le> m" "m \<le> 12" "1 \<le> d" "d \<le> days_in_month y m"
    and ord: "ymd2ord y m d = days + 719163"
    and yr: "(1 \<le> y \<and> y \<le> 9999) \<longleftrightarrow> (1 \<le> days + 719163 \<and> days + 719163 \<le> 3652059)"
    by simp_all
  note c = clock_split [OF sb]
  have range: "(1 \<le> days + 719163 \<and> days + 719163 \<le> 3652059)
      \<longleftrightarrow> - 62135596800 \<le> t \<and> t \<le> 253402300799"
    using t sb by linarith
  have "epoch_seconds (gmtime t)
      = days * 86400 + (secs div 3600 * 3600 + secs mod 3600 div 60 * 60 + secs mod 60)"
    by (simp add: g epoch_seconds_def ord ymd2ord_epoch)
  also have "\<dots> = t" by (simp only: c(7)) (simp add: t)
  finally have e: "epoch_seconds (gmtime t) = t" .
  have w: "valid_datetime (gmtime t) \<longleftrightarrow> (1 \<le> y \<and> y \<le> 9999)"
    using v c(1-6) by (simp add: g valid_datetime_def)
  have yg: "year (gmtime t) = y" by (simp add: g)
  show ?thesis using e w yr range by (simp only: yg)
qed

lemma datetime_fromtimestamp_utc_eq:
  "datetime_fromtimestamp_utc t =
     (if - 62135596800 \<le> t \<and> t \<le> 253402300799 then Inr (gmtime t) else Inl ValueError)"
  using gmtime_correct [of t] by (simp only: datetime_fromtimestamp_utc_def Let_def)

subsection \<open>The gateway on a regular file and on a directory\<close>

lemma os_stat_file:
  "obj_at s p = Some (Regular c m) \<Longrightarrow>
     os_stat p s = (Inr \<lparr>st_mode = S_IFREG, st_size = length c, st_mtime = m\<rparr>, s)"
proof -
  assume a: "obj_at s p = Some (Regular c m)"
  then obtain x where x: "lookup s p = Some x" "view x = Regular c m"
    by (auto simp: obj_at_def)
  then have "x = File c m" by (cases x) simp_all
  with x show ?thesis by (simp add: os_stat_def)
qed

lemma open_read_file:
  "obj_at s p = Some (Regular c m) \<Longrightarrow> open_read p s = (Inr c, s)"
proof -
  assume a: "obj_at s p = Some (Regular c m)"
  then obtain x where x: "lookup s p = Some x" "view x = Regular c m"
    by (auto simp: obj_at_def)
  then have "x = File c m" by (cases x) simp_all
  with x show ?thesis by (simp add: open_read_def)
qed

lemma file_at_iff: "file_at s p \<longleftrightarrow> (\<exists>c m. obj_at s p = Some (Regular c m))"
  by (auto simp: file_at_def split: option.splits obj.splits)

lemma get_file_timestamp_eq:
  "get_file_timestamp p s =
     (case obj_at s p of
        Some (Regular c m) \<Rightarrow>
          (if - 62135596800 \<le> py_int m \<and> py_int m \<le> 253402300799
           then (Inr (isoformat (gmtime (py_int m))), s)
           else (Inl ValueError, s))
      | _ \<Rightarrow> (Inl FileNotFoundError, s))"
proof (cases "file_at s p")
  case True
  then obtain c m where o: "obj_at s p = Some (Regular c m)" by (auto simp: file_at_iff)
  show ?thesis
    using True o
    by (simp add: get_file_timestamp_def is_file_eq os_stat_file [OF o]
        datetime_fromtimestamp_utc_eq Let_def)
next
  case False
  then show ?thesis
    by (auto simp: get_file_timestamp_def is_file_eq file_at_def split: option.splits obj.splits)
qed

lemma is_utf8_encoded_eq:
  "is_utf8_encoded p s =
     (case obj_at s p of
        Some (Regular c m) \<Rightarrow> (Inr (well_formed_utf8 c), s)
      | _ \<Rightarrow> (Inl FileNotFoundError, s))"
proof (cases "file_at s p")
  case True
  then obtain c m where o: "obj_at s p = Some (Regular c m)" by (auto simp: file_at_iff)
  show ?thesis
  proof (cases "utf8_decode c")
    case (Inl e)
    then have "e = UnicodeDecodeError" by (rule utf8_decode_error)
    moreover have "\<not> well_formed_utf8 c" using Inl by (simp add: well_formed_utf8_iff)
    ultimately show ?thesis using True o Inl
      by (simp add: is_utf8_encoded_def is_file_eq open_read_file [OF o])
  next
    case (Inr cps)
    then have "well_formed_utf8 c" by (auto simp: well_formed_utf8_iff)
    then show ?thesis using True o Inr
      by (simp add: is_utf8_encoded_def is_file_eq open_read_file [OF o])
  qed
next
  case False
  then show ?thesis
    by (auto simp: is_utf8_encoded_def is_file_eq file_at_def split: option.splits obj.splits)
qed


lemma list_files_recursive:
  assumes "wf_fs s" "dir_at s d"
  shows "\<exists>paths. list_files d True s = (Inr paths, s)
           \<and> set paths = {q. q \<noteq> [] \<and> nondir_at s (d @ q)}"
proof -
  from assms(2) obtain es where es: "lookup s d = Some (Dir es)" by (auto simp: dir_at_lookup)
  have wf: "wf_fs es" using assms(1) es by (rule wf_fs_lookup)
  have nd: "nondir_at s (d @ q) = nondir_at es q" for q
    by (simp add: nondir_at_def obj_at_append [OF es])
  have "list_files d True s = (Inr (collect d (walk d es)), s)"
    using assms(2) es by (simp add: list_files_def is_directory_eq os_walk_def del: walk.simps)
  moreover have "set (collect d (walk d es)) = {q. q \<noteq> [] \<and> nondir_at s (d @ q)}"
    using walk_collect_aux [of d d "[]" es, OF _ wf] by (simp add: nd del: walk.simps)
  ultimately show ?thesis by blast
qed

lemma list_files_not_directory:
  "\<not> dir_at s d \<Longrightarrow> list_files d b s = (Inl FileNotFoundError, s)"
  by (simp add: list_files_def is_directory_eq)

lemma list_files_state: "snd (list_files d b s) = s"
proof (cases "dir_at s d")
  case False
  then show ?thesis by (simp add: list_files_not_directory)
next
  case True
  then obtain es where es: "lookup s d = Some (Dir es)" by (auto simp: dir_at_lookup)
  show ?thesis
    using True es
    by (cases b)
      (simp_all add: list_files_def is_directory_eq os_walk_def os_listdir_def keep_files_eq
        del: walk.simps)
qed



subsection \<open>The claims\<close>

text \<open>
  Claim C8. Where no filesystem object exists at a path, \<^verbatim>\<open>is_file\<close>,
  \<^verbatim>\<open>is_directory\<close> and \<^verbatim>\<open>is_object\<close> all return false. None of the three can
  raise: their result is a boolean for every path, the error of \<^verbatim>\<open>os.stat\<close> being
  caught inside \<^verbatim>\<open>os.path\<close>.
\<close>

theorem predicates_false_when_absent:
  "\<not> exists_at s p \<Longrightarrow>
     is_file p s = (False, s) \<and> is_directory p s = (False, s) \<and> is_object p s = (False, s)"
  by (simp add: is_file_eq is_directory_eq is_object_eq exists_at_def file_at_def dir_at_def)

theorem predicates_false_when_absent_witness:
  "\<not> exists_at [(''txt'', Dir [])] [''this_is_not_a_file'']
   \<and> is_file [''this_is_not_a_file''] [(''txt'', Dir [])] = (False, [(''txt'', Dir [])])
   \<and> is_directory [''this_is_not_a_file''] [(''txt'', Dir [])] = (False, [(''txt'', Dir [])])
   \<and> is_object [''this_is_not_a_file''] [(''txt'', Dir [])] = (False, [(''txt'', Dir [])])"
proof -
  have h: "\<not> exists_at [(''txt'', Dir [])] [''this_is_not_a_file'']"
    by (simp add: exists_at_def obj_at_def)
  from predicates_false_when_absent [OF h] h show ?thesis by simp
qed

text \<open>
  Claim C7. \<^verbatim>\<open>get_file_size\<close> fails with \<^verbatim>\<open>FileNotFoundError\<close> exactly when the path is
  not an existing regular file; for a regular file it returns the number of bytes the
  file holds, and the nine bytes of \<^verbatim>\<open>test data\<close> give 9.
\<close>

theorem get_file_size_spec:
  "(fst (get_file_size p s) = Inl FileNotFoundError \<longleftrightarrow> \<not> file_at s p)
   \<and> (\<forall>c m. obj_at s p = Some (Regular c m) \<longrightarrow> get_file_size p s = (Inr (length c), s))"
  by (auto simp: get_file_size_eq file_at_def split: option.splits obj.splits)

theorem get_file_size_spec_witness:
  "obj_at [(''txt'', Dir [(''text_file.txt'', File test_data 1682000000)])] [''txt'', ''text_file.txt'']
     = Some (Regular test_data 1682000000)
   \<and> get_file_size [''txt'', ''text_file.txt'']
        [(''txt'', Dir [(''text_file.txt'', File test_data 1682000000)])]
     = (Inr 9, [(''txt'', Dir [(''text_file.txt'', File test_data 1682000000)])])"
proof -
  have h: "obj_at [(''txt'', Dir [(''text_file.txt'', File test_data 1682000000)])] [''txt'', ''text_file.txt'']
     = Some (Regular test_data 1682000000)"
    by (simp add: obj_at_def)
  have l: "length test_data = 9" by (simp add: test_data_def)
  from get_file_size_spec [of "[''txt'', ''text_file.txt'']"
      "[(''txt'', Dir [(''text_file.txt'', File test_data 1682000000)])]"] h l
  show ?thesis by simp
qed

text \<open>
  Claim C10. When \<^verbatim>\<open>create_directory\<close> raises \<^verbatim>\<open>FileExistsError\<close>, or
  \<^verbatim>\<open>remove_directory\<close> raises \<^verbatim>\<open>FileNotFoundError\<close>, the filesystem is left as it
  was: the check comes before the call that changes anything.
\<close>

theorem precondition_failure_leaves_state:
  "(fst (create_directory p s) = Inl FileExistsError \<longrightarrow> snd (create_directory p s) = s)
   \<and> (fst (remove_directory p s) = Inl FileNotFoundError \<longrightarrow> snd (remove_directory p s) = s)"
  by (auto simp: create_directory_def remove_directory_def is_object_eq is_directory_eq
      split: prod.splits sum.splits if_splits)

theorem precondition_failure_leaves_state_witness:
  "fst (create_directory [''a''] [(''a'', Dir [])]) = Inl FileExistsError
   \<and> snd (create_directory [''a''] [(''a'', Dir [])]) = [(''a'', Dir [])]
   \<and> fst (remove_directory [''b''] [(''a'', Dir [])]) = Inl FileNotFoundError
   \<and> snd (remove_directory [''b''] [(''a'', Dir [])]) = [(''a'', Dir [])]"
proof -
  have c: "fst (create_directory [''a''] [(''a'', Dir [])]) = Inl FileExistsError"
    by (simp add: create_directory_def is_object_eq exists_at_def obj_at_def)
  have r: "fst (remove_directory [''b''] [(''a'', Dir [])]) = Inl FileNotFoundError"
    by (simp add: remove_directory_def is_directory_eq dir_at_def obj_at_def)
  from precondition_failure_leaves_state [of "[''a'']" "[(''a'', Dir [])]"]
    precondition_failure_leaves_state [of "[''b'']" "[(''a'', Dir [])]"] c r
  show ?thesis by simp
qed

text \<open>
  Claim C6. \<^verbatim>\<open>remove_directory\<close> fails with \<^verbatim>\<open>FileNotFoundError\<close> exactly when the
  path is not an existing directory. When it succeeds (as it does on every directory but
  the root of the tree), \<^verbatim>\<open>is_object\<close> is false afterwards for the path and for every
  path below it, and every other path names what it named before.
\<close>

theorem remove_directory_spec:
  "(fst (remove_directory p s) = Inl FileNotFoundError \<longleftrightarrow> \<not> dir_at s p)
   \<and> (dir_at s p \<and> p \<noteq> [] \<longrightarrow> fst (remove_directory p s) = Inr ())
   \<and> (fst (remove_directory p s) = Inr () \<longrightarrow>
        (\<forall>q. prefix p q \<longrightarrow>
           is_object q (snd (remove_directory p s)) = (False, snd (remove_directory p s)))
        \<and> (\<forall>q. \<not> prefix p q \<longrightarrow> obj_at (snd (remove_directory p s)) q = obj_at s q))"
proof -
  have "\<forall>r. obj_at (snd (rmtree_at s p)) r = (if prefix p r then None else obj_at s r)"
    if "dir_at s p" "p \<noteq> []"
    using rmtree_at_ok [OF that] by auto
  then show ?thesis
    by (auto simp: remove_directory_eq is_object_eq exists_at_def)
qed

theorem remove_directory_spec_witness:
  "dir_at fixtures [''tex''] \<and> [''tex''] \<noteq> []
   \<and> fst (remove_directory [''tex''] fixtures) = Inr ()
   \<and> fst (is_object [''tex''] (snd (remove_directory [''tex''] fixtures))) = False
   \<and> fst (is_object [''tex'', ''deep'', ''latex209_example.tex'']
             (snd (remove_directory [''tex''] fixtures))) = False
   \<and> obj_at (snd (remove_directory [''tex''] fixtures)) [''txt'', ''text_file.txt'']
       = Some (Regular test_data 1682000000)"
proof -
  have d: "dir_at fixtures [''tex'']"
    by (simp add: dir_at_def obj_at_def fixtures_def)
  have o: "obj_at fixtures [''txt'', ''text_file.txt''] = Some (Regular test_data 1682000000)"
    by (simp add: obj_at_def fixtures_def)
  from remove_directory_spec [of "[''tex'']" fixtures] d
  have ok: "fst (remove_directory [''tex''] fixtures) = Inr ()"
    and gone: "\<And>q. prefix [''tex''] q \<Longrightarrow>
           is_object q (snd (remove_directory [''tex''] fixtures))
             = (False, snd (remove_directory [''tex''] fixtures))"
    and kept: "\<And>q. \<not> prefix [''tex''] q \<Longrightarrow>
           obj_at (snd (remove_directory [''tex''] fixtures)) q = obj_at fixtures q"
    by auto
  from gone [of "[''tex'']"] gone [of "[''tex'', ''deep'', ''latex209_example.tex'']"]
    kept [of "[''txt'', ''text_file.txt'']"] ok d o
  show ?thesis by simp
qed

text \<open>
  Claim C5, as amended. \<^verbatim>\<open>create_directory\<close> fails with \<^verbatim>\<open>FileExistsError\<close> exactly
  when an object exists at the path. Otherwise, for a path of ordinary names: when a
  proper ancestor of the path is a regular file or a special object, it fails with
  \<^verbatim>\<open>OSError\<close>; when none is, it succeeds. Whenever it succeeds, the path and all its
  ancestors are directories afterwards, and a second call on the same path raises
  \<^verbatim>\<open>FileExistsError\<close>.
\<close>

theorem create_directory_spec:
  "(fst (create_directory p s) = Inl FileExistsError \<longleftrightarrow> exists_at s p)
   \<and> (plain_path p \<and> \<not> exists_at s p \<and> blocked s p \<longrightarrow>
        fst (create_directory p s) = Inl OSError)
   \<and> (plain_path p \<and> \<not> exists_at s p \<and> \<not> blocked s p \<longrightarrow>
        fst (create_directory p s) = Inr ())
   \<and> (fst (create_directory p s) = Inr () \<longrightarrow>
        (\<forall>q. prefix q p \<longrightarrow> dir_at (snd (create_directory p s)) q)
        \<and> fst (create_directory p (snd (create_directory p s))) = Inl FileExistsError)"
proof -
  have 1: "fst (create_directory p s) = Inl FileExistsError \<longleftrightarrow> exists_at s p"
  proof (cases "exists_at s p")
    case True
    then show ?thesis by (simp add: create_directory_exists)
  next
    case False
    then show ?thesis
      by (auto simp: create_directory_def is_object_eq split: prod.splits sum.splits if_splits)
  qed
  have 2: "fst (create_directory p s) = Inl OSError" if "plain_path p" "blocked s p"
    using create_directory_blocked [OF that(2,1)] by simp
  have 3: "fst (create_directory p s) = Inr ()"
    if "plain_path p" "\<not> exists_at s p" "\<not> blocked s p"
    using create_directory_ok [OF that(2,3,1)] by auto
  have 4: "(\<forall>q. prefix q p \<longrightarrow> dir_at (snd (create_directory p s)) q)
        \<and> fst (create_directory p (snd (create_directory p s))) = Inl FileExistsError"
    if ok: "fst (create_directory p s) = Inr ()"
  proof -
    obtain s' where c: "create_directory p s = (Inr (), s')"
      using ok by (cases "create_directory p s") simp
    from create_directory_Inr [OF c] have d: "dir_at s' p" .
    then have "exists_at s' p" by (simp add: exists_at_def dir_at_def)
    then have "create_directory p s' = (Inl FileExistsError, s')"
      by (rule create_directory_exists)
    moreover have "dir_at s' q" if "prefix q p" for q
      using d that by (rule prefix_of_dir)
    ultimately show ?thesis using c by simp
  qed
  from 1 2 3 4 show ?thesis by blast
qed

theorem create_directory_spec_witness:
  "plain_path [''out'', ''a'', ''b'']
   \<and> \<not> exists_at fixtures [''out'', ''a'', ''b''] \<and> \<not> blocked fixtures [''out'', ''a'', ''b'']
   \<and> fst (create_directory [''out'', ''a'', ''b''] fixtures) = Inr ()
   \<and> fst (is_directory [''out''] (snd (create_directory [''out'', ''a'', ''b''] fixtures)))
   \<and> fst (is_directory [''out'', ''a''] (snd (create_directory [''out'', ''a'', ''b''] fixtures)))
   \<and> fst (is_directory [''out'', ''a'', ''b''] (snd (create_directory [''out'', ''a'', ''b''] fixtures)))
   \<and> fst (create_directory [''out'', ''a'', ''b'']
            (snd (create_directory [''out'', ''a'', ''b''] fixtures))) = Inl FileExistsError
   \<and> plain_path [''txt'', ''text_file.txt'', ''x'']
   \<and> \<not> exists_at fixtures [''txt'', ''text_file.txt'', ''x'']
   \<and> blocked fixtures [''txt'', ''text_file.txt'', ''x'']
   \<and> fst (create_directory [''txt'', ''text_file.txt'', ''x''] fixtures) = Inl OSError"
proof -
  have pl: "plain_path [''out'', ''a'', ''b'']"
    by (simp add: plain_path_def ordinary_name_def path_length_def)
  have e: "\<not> exists_at fixtures [''out'', ''a'', ''b'']"
    by (simp add: exists_at_def obj_at_def fixtures_def)
  have b: "\<not> blocked fixtures [''out'', ''a'', ''b'']"
    by (simp add: fixtures_def)
  have pl': "plain_path [''txt'', ''text_file.txt'', ''x'']"
    by (simp add: plain_path_def ordinary_name_def path_length_def)
  have e': "\<not> exists_at fixtures [''txt'', ''text_file.txt'', ''x'']"
    by (simp add: exists_at_def obj_at_def fixtures_def)
  have b': "blocked fixtures [''txt'', ''text_file.txt'', ''x'']"
    by (simp add: fixtures_def)
  from create_directory_spec [of "[''out'', ''a'', ''b'']" fixtures] pl e b
  have ok: "fst (create_directory [''out'', ''a'', ''b''] fixtures) = Inr ()"
    by blast
  from create_directory_spec [of "[''out'', ''a'', ''b'']" fixtures] ok
  have dirs: "\<And>q. prefix q [''out'', ''a'', ''b''] \<Longrightarrow>
                 dir_at (snd (create_directory [''out'', ''a'', ''b''] fixtures)) q"
    and again: "fst (create_directory [''out'', ''a'', ''b'']
            (snd (create_directory [''out'', ''a'', ''b''] fixtures))) = Inl FileExistsError"
    by blast+
  from create_directory_spec [of "[''txt'', ''text_file.txt'', ''x'']" fixtures] pl' e' b'
  have bl: "fst (create_directory [''txt'', ''text_file.txt'', ''x''] fixtures) = Inl OSError"
    by blast
  have "prefix [''out''] [''out'', ''a'', ''b'']" "prefix [''out'', ''a''] [''out'', ''a'', ''b'']"
    "prefix [''out'', ''a'', ''b''] [''out'', ''a'', ''b'']"
    by simp_all
  from this [THEN dirs] pl e b ok again pl' e' b' bl show ?thesis
    by (simp add: is_directory_eq)
qed

text \<open>
  As stated, C5 promises the directory whenever nothing exists at the path. Below a
  regular file nothing exists, yet the call raises \<^verbatim>\<open>OSError\<close>, creates nothing, and
  a second call raises \<^verbatim>\<open>OSError\<close> again rather than \<^verbatim>\<open>FileExistsError\<close>. Nor does
  anything exist at a name with a NUL byte in it, and there the call raises
  \<^verbatim>\<open>ValueError\<close>.
\<close>

theorem create_directory_below_file_counterexample:
  "\<not> exists_at [(''a'', File [] 0)] [''a'', ''b'']
   \<and> create_directory [''a'', ''b''] [(''a'', File [] 0)] = (Inl OSError, [(''a'', File [] 0)])
   \<and> fst (create_directory [''a'', ''b'']
            (snd (create_directory [''a'', ''b''] [(''a'', File [] 0)]))) \<noteq> Inl FileExistsError
   \<and> \<not> exists_at [] [[CHR ''a'', CHR 0x00, CHR ''b'']]
   \<and> create_directory [[CHR ''a'', CHR 0x00, CHR ''b'']] [] = (Inl ValueError, [])"
proof -
  have b: "blocked [(''a'', File [] 0)] [''a'', ''b'']" by simp
  have pl: "plain_path [''a'', ''b'']"
    by (simp add: plain_path_def ordinary_name_def path_length_def)
  have n: "\<not> exists_at [] [[CHR ''a'', CHR 0x00, CHR ''b'']]"
    by (simp add: exists_at_def obj_at_def)
  have "os_makedirs [[CHR ''a'', CHR 0x00, CHR ''b'']] [] = (Inl ValueError, [])"
    by (simp add: os_makedirs_base os_mkdir_def embedded_null_def)
  then have v: "create_directory [[CHR ''a'', CHR 0x00, CHR ''b'']] [] = (Inl ValueError, [])"
    using n by (simp add: create_directory_def is_object_eq)
  from create_directory_blocked [OF b pl] blocked_not_exists [OF b] n v show ?thesis by simp
qed

text \<open>
  Claim C3. \<^verbatim>\<open>is_utf8_encoded\<close> fails with \<^verbatim>\<open>FileNotFoundError\<close> exactly when the
  path is not an existing regular file. On a regular file it reads all the bytes and
  returns a boolean, never an error: true when the bytes are well-formed UTF-8 (the
  encoding of a sequence of Unicode scalar values), false when decoding fails.
\<close>

theorem is_utf8_encoded_spec:
  "(fst (is_utf8_encoded p s) = Inl FileNotFoundError \<longleftrightarrow> \<not> file_at s p)
   \<and> (\<forall>c m. obj_at s p = Some (Regular c m) \<longrightarrow>
          is_utf8_encoded p s = (Inr (well_formed_utf8 c), s))"
  by (auto simp: is_utf8_encoded_eq file_at_def split: option.splits obj.splits)

theorem is_utf8_encoded_spec_witness:
  "obj_at fixtures [''txt'', ''text_file.txt''] = Some (Regular test_data 1682000000)
   \<and> is_utf8_encoded [''txt'', ''text_file.txt''] fixtures = (Inr True, fixtures)
   \<and> obj_at fixtures [''txt'', ''non_utf8_sample.txt'']
        = Some (Regular [255, 254, 253] (3364000001 / 2))
   \<and> is_utf8_encoded [''txt'', ''non_utf8_sample.txt''] fixtures = (Inr False, fixtures)"
proof -
  have o1: "obj_at fixtures [''txt'', ''text_file.txt''] = Some (Regular test_data 1682000000)"
    by (simp add: obj_at_def fixtures_def)
  have o2: "obj_at fixtures [''txt'', ''non_utf8_sample.txt'']
        = Some (Regular [255, 254, 253] (3364000001 / 2))"
    by (simp add: obj_at_def fixtures_def)
  have "utf8_decode test_data = Inr [116, 101, 115, 116, 32, 100, 97, 116, 97]"
    by (simp add: utf8_decode.simps test_data_def)
  then have w1: "well_formed_utf8 test_data" by (simp add: well_formed_utf8_iff)
  have "utf8_decode [255, 254, 253] = Inl UnicodeDecodeError"
    by (simp add: utf8_decode.simps)
  then have w2: "\<not> well_formed_utf8 [255, 254, 253]" by (simp add: well_formed_utf8_iff)
  from is_utf8_encoded_spec [of "[''txt'', ''text_file.txt'']" fixtures] o1
  have e1: "is_utf8_encoded [''txt'', ''text_file.txt''] fixtures
      = (Inr (well_formed_utf8 test_data), fixtures)"
    by blast
  from is_utf8_encoded_spec [of "[''txt'', ''non_utf8_sample.txt'']" fixtures] o2
  have e2: "is_utf8_encoded [''txt'', ''non_utf8_sample.txt''] fixtures
      = (Inr (well_formed_utf8 [255, 254, 253]), fixtures)"
    by blast
  from o1 o2 e1 e2 w1 w2 show ?thesis by simp
qed




text \<open>
  Claim C9. \<^verbatim>\<open>is_file\<close>, \<^verbatim>\<open>is_directory\<close>, \<^verbatim>\<open>is_object\<close>, \<^verbatim>\<open>get_file_size\<close>,
  \<^verbatim>\<open>get_file_timestamp\<close>, \<^verbatim>\<open>is_utf8_encoded\<close> and \<^verbatim>\<open>list_files\<close> leave the
  filesystem as it was, for every path and every state, whether they return a value or
  raise.
\<close>

theorem read_only_operations_leave_state:
  "snd (is_file p s) = s \<and> snd (is_directory p s) = s \<and> snd (is_object p s) = s
   \<and> snd (get_file_size p s) = s \<and> snd (get_file_timestamp p s) = s
   \<and> snd (is_utf8_encoded p s) = s \<and> snd (list_files p b s) = s"
proof -
  have "snd (get_file_size p s) = s"
    by (simp add: get_file_size_eq split: option.splits obj.splits)
  moreover have "snd (get_file_timestamp p s) = s"
    by (simp add: get_file_timestamp_eq split: option.splits obj.splits)
  moreover have "snd (is_utf8_encoded p s) = s"
    by (simp add: is_utf8_encoded_eq split: option.splits obj.splits)
  ultimately show ?thesis
    by (simp add: is_file_eq is_directory_eq is_object_eq list_files_state)
qed

text \<open>
  Claim C1. On a directory that holds the regular file \<^verbatim>\<open>a.txt\<close>, the FIFO \<^verbatim>\<open>pipe\<close> and
  the subdirectory \<^verbatim>\<open>sub\<close> with the regular file \<^verbatim>\<open>b.txt\<close> in it, the flat listing is
  \<^verbatim>\<open>a.txt\<close> alone, as the claim says. The recursive listing has \<^verbatim>\<open>pipe\<close> in it, which
  is not a regular file: \<^verbatim>\<open>os.walk\<close> hands over every entry that is not a directory, and
  the recursive branch keeps them all, where the flat branch asks \<^verbatim>\<open>is_file\<close> of each.
\<close>

theorem list_files_recursive_lists_fifo:
  "list_files [''d''] False fifo_tree = (Inr [[''a.txt'']], fifo_tree)
   \<and> list_files [''d''] True fifo_tree
        = (Inr [[''a.txt''], [''pipe''], [''sub'', ''b.txt'']], fifo_tree)
   \<and> obj_at fifo_tree [''d'', ''pipe''] = Some Other
   \<and> \<not> file_at fifo_tree [''d'', ''pipe'']"
  by (simp add: list_files_def is_directory_eq dir_at_def obj_at_def fifo_tree_def os_walk_def
      os_listdir_def keep_files_eq file_at_def os_path_relpath_def os_path_join_def)

text \<open>
  Claim C2. On the same directory the recursive listing returns \<^verbatim>\<open>pipe\<close>, and
  \<^verbatim>\<open>is_file\<close> of the directory joined with \<^verbatim>\<open>pipe\<close> is false: the round trip fails
  on the entry that the recursive branch did not filter.
\<close>

theorem list_files_round_trip_fails_on_fifo:
  "\<exists>paths. fst (list_files [''d''] True fifo_tree) = Inr paths
     \<and> [''pipe''] \<in> set paths
     \<and> is_file (os_path_join [''d''] [''pipe'']) fifo_tree = (False, fifo_tree)"
  by (simp add: list_files_def is_directory_eq dir_at_def obj_at_def fifo_tree_def os_walk_def
      is_file_eq file_at_def os_path_relpath_def os_path_join_def)

end
